theory Spec2Isabelle
  imports Main "HOL-Library.AList"
begin

section \<open>A model of the teckos uWebSockets provider (UWSProvider)\<close>

text \<open>
  The provider is a class whose methods and transport callbacks mutate three things: its own
  fields (\<^verbatim>\<open>_options\<close>, \<^verbatim>\<open>_pub\<close>, \<^verbatim>\<open>_sub\<close>, \<^verbatim>\<open>_connections\<close>, \<^verbatim>\<open>_handlers\<close>), the
  transport's connection objects (\<^verbatim>\<open>ws.id\<close>, \<^verbatim>\<open>ws.alive\<close>, the topic subscriptions) and the
  outside world (the console, Redis, the application's handlers). The model is a record of
  the fields, a store of connection objects addressed by reference, and a trace of every call
  that leaves the provider, in the order the code makes it. Each method and each callback is a
  function from state to state; the one place where the code can fault (a property read on
  \<^verbatim>\<open>undefined\<close> in the heartbeat sweep) returns a sum.
\<close>

subsection \<open>Packets and options\<close>

text \<open>The values of TypeScript's \<^verbatim>\<open>any\<close> that a packet carries (numbers restricted to integers).\<close>

datatype any = Undefined | Null | Bool bool | Num int | Str string | Arr "any list"

text \<open>
  Modelled from the spec: \<^verbatim>\<open>types/TeckosPacketType\<close> is not among the sources; the
  spec gives the packet type as an enumeration with at least EVENT and ACK.
\<close>

datatype TeckosPacketType = EVENT | ACK

record TeckosPacket =
  pkt_type :: TeckosPacketType
  pkt_data :: "any list"

text \<open>
  \<^verbatim>\<open>TeckosOptions\<close>: every key is optional (the constructor reads each through \<^verbatim>\<open>options?.\<close>),
  so every field is an option, \<open>None\<close> standing for \<^verbatim>\<open>undefined\<close>.
\<close>

record TeckosOptions =
  redisUrl :: "string option"
  pingInterval :: "int option"
  pingTimeout :: "int option"
  debug :: "bool option"

definition DEFAULT_OPTION :: TeckosOptions where
  "DEFAULT_OPTION =
     \<lparr>redisUrl = None, pingInterval = Some 25000, pingTimeout = Some 5000, debug = None\<rparr>"

text \<open>JavaScript's \<^verbatim>\<open>a || b\<close>: \<^verbatim>\<open>b\<close> unless \<^verbatim>\<open>a\<close> is truthy. The empty string, 0 and
  \<^verbatim>\<open>undefined\<close> are falsy.\<close>

definition truthy_string :: "string option \<Rightarrow> bool" where
  "truthy_string a = (case a of None \<Rightarrow> False | Some s \<Rightarrow> s \<noteq> [])"

definition truthy_number :: "int option \<Rightarrow> bool" where
  "truthy_number a = (case a of None \<Rightarrow> False | Some n \<Rightarrow> n \<noteq> 0)"

definition truthy_bool :: "bool option \<Rightarrow> bool" where
  "truthy_bool a = (case a of None \<Rightarrow> False | Some b \<Rightarrow> b)"

definition or_string :: "string option \<Rightarrow> string option \<Rightarrow> string option" where
  "or_string a b = (if truthy_string a then a else b)"

definition or_number :: "int option \<Rightarrow> int option \<Rightarrow> int option" where
  "or_number a b = (if truthy_number a then a else b)"

text \<open>The object literal assigned to \<^verbatim>\<open>this._options\<close>; \<^verbatim>\<open>options?.k\<close> is \<open>Option.bind options k\<close>.
  The \<^verbatim>\<open>pingTimeout\<close> key is computed from \<^verbatim>\<open>options?.pingInterval\<close>, as the source has it.\<close>

definition merge_options :: "TeckosOptions option \<Rightarrow> TeckosOptions" where
  "merge_options options =
     \<lparr>redisUrl = or_string (Option.bind options redisUrl) None,
      pingInterval = or_number (Option.bind options pingInterval) (pingInterval DEFAULT_OPTION),
      pingTimeout = or_number (Option.bind options pingInterval) (pingTimeout DEFAULT_OPTION),
      debug = Option.bind options debug\<rparr>"

subsection \<open>Connection objects, handles and the provider's state\<close>

text \<open>
  Modelled from the spec: the transport (\<^verbatim>\<open>../uws\<close>, uWebSockets.js) is not among the sources.
  The spec's transport surface is \<^verbatim>\<open>send\<close>, \<^verbatim>\<open>ping\<close>, \<^verbatim>\<open>subscribeToGroup\<close>, \<^verbatim>\<open>publishLocally\<close> and
  \<^verbatim>\<open>closeConnection\<close>, with group membership "expressed by each Connection Handle subscribing
  to a named topic on the transport's own pub/sub primitive". A connection object carries the
  two properties the provider writes on it (\<^verbatim>\<open>id\<close>, \<^verbatim>\<open>alive\<close>), its topic subscriptions, the
  frames published to it, the number of pings sent to it and whether it is closed.
\<close>

record 'b WebSocket =
  ws_id :: "string option"
  alive :: bool
  topics :: "string list"
  inbox :: "'b list"
  pings :: nat
  closed :: bool

definition new_WebSocket :: "'b WebSocket" where
  "new_WebSocket =
     \<lparr>ws_id = None, alive = False, topics = [], inbox = [], pings = 0, closed = False\<rparr>"

text \<open>
  Modelled from the spec: the class \<^verbatim>\<open>UWSSocket\<close> (the spec's Connection Handle) is not among
  the sources. The provider constructs it from the identity, the connection object and the
  debug flag, and calls \<^verbatim>\<open>ws()\<close>, \<^verbatim>\<open>onMessage\<close>, \<^verbatim>\<open>onDisconnect\<close> and \<^verbatim>\<open>disconnect\<close> on it.
\<close>

record UWSSocket =
  sock_id :: string
  sock_ws :: nat
  sock_debug :: "bool option"

text \<open>An application handler (\<^verbatim>\<open>ITeckosSocketHandler\<close>) is code outside the repository: the
  model keeps what the open callback observes of it, whether it returns (\<open>None\<close>) or throws
  (\<open>Some\<close> of the thrown value).\<close>

type_synonym ITeckosSocketHandler = "UWSSocket \<Rightarrow> string option"

text \<open>Every call that leaves the provider.\<close>

datatype 'b effect =
    ConsoleLog string
  | ConsoleError string
  | RedisSubscribe string
  | RedisPSubscribe string
  | RedisPublish string 'b
  | AppPublish string 'b
  | HandlerCall nat string
  | SocketOnMessage string 'b
  | SocketOnDisconnect string
  | WsPing nat string
  | WsClose nat

record 'b UWSProvider =
  options :: TeckosOptions
  pub :: "string option"
  sub :: "string option"
  connections :: "(string \<times> UWSSocket) list"
  handlers :: "ITeckosSocketHandler list"
  sockets :: "nat \<Rightarrow> 'b WebSocket"
  allocated :: nat
  trace :: "'b effect list"

text \<open>\<^verbatim>\<open>_connections\<close> is a JavaScript object used as a dictionary: an association list in
  insertion order, written with \<open>AList.update\<close> and \<open>AList.delete\<close> and read with \<open>map_of\<close>.
  \<open>sockets\<close> is the store of connection objects the transport has created, \<open>allocated\<close> many
  of them; a handle refers to its connection object by its index in the store.\<close>

definition emit :: "'b effect \<Rightarrow> 'b UWSProvider \<Rightarrow> 'b UWSProvider" where
  "emit e p = p\<lparr>trace := trace p @ [e]\<rparr>"

definition log_if_debug :: "string \<Rightarrow> 'b UWSProvider \<Rightarrow> 'b UWSProvider" where
  "log_if_debug msg p = (if truthy_bool (debug (options p)) then emit (ConsoleLog msg) p else p)"

text \<open>A property key: \<^verbatim>\<open>undefined\<close> used as a key or inside a template string reads
  \<^verbatim>\<open>"undefined"\<close>.\<close>

definition key_of :: "string option \<Rightarrow> string" where
  "key_of i = (case i of None \<Rightarrow> ''undefined'' | Some s \<Rightarrow> s)"

definition update_ws ::
  "nat \<Rightarrow> ('b WebSocket \<Rightarrow> 'b WebSocket) \<Rightarrow> 'b UWSProvider \<Rightarrow> 'b UWSProvider" where
  "update_ws r f p = p\<lparr>sockets := (sockets p)(r := f (sockets p r))\<rparr>"

subsection \<open>The transport's operations\<close>

text \<open>Modelled from the spec: \<^verbatim>\<open>ws.subscribe(topic)\<close> adds the topic to the connection's
  subscriptions, once ("no duplicate subscriptions are created for the same (connection, group)
  pair").\<close>

definition ws_subscribe :: "nat \<Rightarrow> string \<Rightarrow> 'b UWSProvider \<Rightarrow> 'b UWSProvider" where
  "ws_subscribe r t p =
     update_ws r (\<lambda>w. w\<lparr>topics := (if t \<in> set (topics w) then topics w else topics w @ [t])\<rparr>) p"

text \<open>Modelled from the spec: \<^verbatim>\<open>app.publish(topic, message)\<close> (the spec's \<^verbatim>\<open>publishLocally\<close>)
  hands the message to every open connection subscribed to the topic, once each.\<close>

definition deliver :: "string \<Rightarrow> 'b \<Rightarrow> 'b WebSocket \<Rightarrow> 'b WebSocket" where
  "deliver t m w = (if \<not> closed w \<and> t \<in> set (topics w) then w\<lparr>inbox := inbox w @ [m]\<rparr> else w)"

definition app_publish :: "string \<Rightarrow> 'b \<Rightarrow> 'b UWSProvider \<Rightarrow> 'b UWSProvider" where
  "app_publish t m p =
     emit (AppPublish t m) (p\<lparr>sockets := (\<lambda>r. deliver t m (sockets p r))\<rparr>)"

text \<open>Modelled from the spec: \<^verbatim>\<open>ws.ping(payload)\<close> sends one liveness probe.\<close>

definition ws_ping :: "nat \<Rightarrow> string \<Rightarrow> 'b UWSProvider \<Rightarrow> 'b UWSProvider" where
  "ws_ping r payload p = emit (WsPing r payload) (update_ws r (\<lambda>w. w\<lparr>pings := Suc (pings w)\<rparr>) p)"

subsection \<open>The transport callbacks\<close>

text \<open>\<^verbatim>\<open>this._handlers.forEach((handler) => handler(this._connections[id]))\<close>: the handlers run
  in list order, and a throw leaves the loop. The result is the calls made and the value thrown,
  if any. The counter is the handler's position in \<^verbatim>\<open>_handlers\<close>.\<close>

fun forEach_handlers ::
  "ITeckosSocketHandler list \<Rightarrow> nat \<Rightarrow> UWSSocket \<Rightarrow> 'b effect list \<times> string option" where
  "forEach_handlers [] i s = ([], None)"
| "forEach_handlers (h # hs) i s =
     (case h s of
        Some thrown \<Rightarrow> ([HandlerCall i (sock_id s)], Some thrown)
      | None \<Rightarrow>
         (case forEach_handlers hs (Suc i) s of
            (calls, r) \<Rightarrow> (HandlerCall i (sock_id s) # calls, r)))"

text \<open>\<^verbatim>\<open>open\<close>: the transport has created a connection object (the next reference of the store);
  \<open>uuid\<close> is what \<^verbatim>\<open>generateUUID()\<close> returned, sixteen random bytes in hexadecimal, which the
  model takes from its environment. The handle gets the constructor argument's
  \<^verbatim>\<open>options?.debug\<close>, which is the value stored as \<^verbatim>\<open>_options.debug\<close>.\<close>

definition on_open :: "string \<Rightarrow> 'b UWSProvider \<Rightarrow> 'b UWSProvider" where
  "on_open uuid p =
     (let r = allocated p;
          p0 = p\<lparr>sockets := (sockets p)(r := new_WebSocket), allocated := Suc r\<rparr>;
          p1 = ws_subscribe r ''a'' p0;
          p2 = update_ws r (\<lambda>w. w\<lparr>ws_id := Some uuid\<rparr>) p1;
          p3 = update_ws r (\<lambda>w. w\<lparr>alive := True\<rparr>) p2;
          s = \<lparr>sock_id = uuid, sock_ws = r, sock_debug = debug (options p)\<rparr>;
          p4 = p3\<lparr>connections := AList.update uuid s (connections p3)\<rparr>
      in case forEach_handlers (handlers p4) 0 s of
           (calls, None) \<Rightarrow> p4\<lparr>trace := trace p4 @ calls\<rparr>
         | (calls, Some handlerError) \<Rightarrow>
             emit (ConsoleError handlerError) (p4\<lparr>trace := trace p4 @ calls\<rparr>))"

definition on_pong :: "nat \<Rightarrow> 'b UWSProvider \<Rightarrow> 'b UWSProvider" where
  "on_pong r p = update_ws r (\<lambda>w. w\<lparr>alive := True\<rparr>) p"

text \<open>Modelled from the spec: \<^verbatim>\<open>UWSSocket.onMessage\<close> (the spec's \<^verbatim>\<open>onFrame\<close>) decodes the frame
  and dispatches it to the connection's listeners, logging and dropping a frame that does not
  decode; the model records the call.\<close>

definition onMessage :: "UWSSocket \<Rightarrow> 'b \<Rightarrow> 'b UWSProvider \<Rightarrow> 'b UWSProvider" where
  [simp]: "onMessage s buffer p = emit (SocketOnMessage (sock_id s) buffer) p"

text \<open>Modelled from the spec: \<^verbatim>\<open>UWSSocket.onDisconnect\<close> notifies the connection's listeners;
  the model records the call.\<close>

definition onDisconnect :: "UWSSocket \<Rightarrow> 'b UWSProvider \<Rightarrow> 'b UWSProvider" where
  [simp]: "onDisconnect s p = emit (SocketOnDisconnect (sock_id s)) p"

text \<open>\<^verbatim>\<open>message\<close>, \<^verbatim>\<open>drain\<close> and \<^verbatim>\<open>close\<close>: each reads \<^verbatim>\<open>ws.id\<close> and looks the identity up
  in \<^verbatim>\<open>_connections\<close>. The drain callback tests the constructor argument's
  \<^verbatim>\<open>options?.debug\<close>, which is the value stored as \<^verbatim>\<open>_options.debug\<close>.\<close>

definition on_message :: "nat \<Rightarrow> 'b \<Rightarrow> 'b UWSProvider \<Rightarrow> 'b UWSProvider" where
  "on_message r buffer p =
     (let id = key_of (ws_id (sockets p r)) in
      case map_of (connections p) id of
        Some s \<Rightarrow> onMessage s buffer p
      | None \<Rightarrow> emit (ConsoleError (''Got message from unknown connection: '' @ id)) p)"

definition on_drain :: "nat \<Rightarrow> 'b UWSProvider \<Rightarrow> 'b UWSProvider" where
  "on_drain r p =
     (let id = key_of (ws_id (sockets p r)) in log_if_debug (''Drain: '' @ id) p)"

definition on_close :: "nat \<Rightarrow> 'b UWSProvider \<Rightarrow> 'b UWSProvider" where
  "on_close r p =
     (let id = key_of (ws_id (sockets p r)) in
      case map_of (connections p) id of
        Some s \<Rightarrow>
          (let p1 = log_if_debug (''Client '' @ id @ '' disconnected, removing from registry'') p;
               p2 = onDisconnect s p1
           in p2\<lparr>connections := AList.delete id (connections p2)\<rparr>)
      | None \<Rightarrow> p)"

text \<open>Modelled from the spec: when a connection closes, by the peer or by \<^verbatim>\<open>ws.close()\<close>, the
  transport drops it from every topic and calls the \<^verbatim>\<open>close\<close> callback; its reference
  "becomes invalid once the transport signals close".\<close>

definition transport_close :: "nat \<Rightarrow> 'b UWSProvider \<Rightarrow> 'b UWSProvider" where
  "transport_close r p = on_close r (update_ws r (\<lambda>w. w\<lparr>closed := True, topics := []\<rparr>) p)"

text \<open>Modelled from the spec: \<^verbatim>\<open>UWSSocket.disconnect\<close> (the spec's \<^verbatim>\<open>close()\<close>) is "idempotent;
  triggers transport-level close and signals the Registry to remove the handle".\<close>

definition disconnect :: "UWSSocket \<Rightarrow> 'b UWSProvider \<Rightarrow> 'b UWSProvider" where
  "disconnect s p =
     (if closed (sockets p (sock_ws s)) then p
      else transport_close (sock_ws s) (emit (WsClose (sock_ws s)) p))"

text \<open>Modelled from the spec: \<^verbatim>\<open>UWSSocket.join(group)\<close> subscribes the connection to the
  group's topic.\<close>

definition join :: "UWSSocket \<Rightarrow> string \<Rightarrow> 'b UWSProvider \<Rightarrow> 'b UWSProvider" where
  "join s g p = (if closed (sockets p (sock_ws s)) then p else ws_subscribe (sock_ws s) g p)"

subsection \<open>The heartbeat sweep\<close>

datatype fault = TypeError string

text \<open>The timer callback of \<^verbatim>\<open>_keepAliveSockets\<close>: \<^verbatim>\<open>Object.keys(connections).forEach\<close> walks
  the keys the dictionary had when the timer fired, and its callback reads
  \<^verbatim>\<open>this._connections[uuid]\<close> anew at each key; a key that is gone by then makes \<^verbatim>\<open>.ws()\<close> a
  read on \<^verbatim>\<open>undefined\<close>.\<close>

definition keepAlive_socket :: "string \<Rightarrow> 'b UWSProvider \<Rightarrow> fault + 'b UWSProvider" where
  "keepAlive_socket uuid p =
     (case map_of (connections p) uuid of
        None \<Rightarrow> Inl (TypeError ''Cannot read properties of undefined'')
      | Some s \<Rightarrow>
          (let r = sock_ws s in
           if alive (sockets p r)
           then Inr (ws_ping r ''hey'' (update_ws r (\<lambda>w. w\<lparr>alive := False\<rparr>) p))
           else Inr (disconnect s
                  (log_if_debug
                     (''Ping pong timeout for '' @ uuid @ '', disconnecting client...'') p))))"

fun keepAlive :: "string list \<Rightarrow> 'b UWSProvider \<Rightarrow> fault + 'b UWSProvider" where
  "keepAlive [] p = Inr p"
| "keepAlive (uuid # uuids) p =
     (case keepAlive_socket uuid p of Inl f \<Rightarrow> Inl f | Inr p' \<Rightarrow> keepAlive uuids p')"

definition keepAliveSockets :: "'b UWSProvider \<Rightarrow> fault + 'b UWSProvider" where
  "keepAliveSockets p = keepAlive (map fst (connections p)) p"

subsection \<open>The constructor and the public methods\<close>

text \<open>The constructor stores the merged options, connects to Redis and subscribes when a
  backbone is configured, registers the callbacks above with the transport and arms the sweep
  timer. The state it leaves has no connection, no handler and no connection object.\<close>

definition constructor :: "TeckosOptions option \<Rightarrow> 'b UWSProvider" where
  "constructor opts =
     (let p = \<lparr>options = merge_options opts, pub = None, sub = None, connections = [],
               handlers = [], sockets = (\<lambda>r. new_WebSocket), allocated = 0, trace = []\<rparr>
      in if truthy_string (redisUrl (options p))
         then (let p1 = log_if_debug (''Using REDIS at '' @ key_of (redisUrl (options p))) p;
                   p2 = p1\<lparr>pub := redisUrl (options p), sub := redisUrl (options p)\<rparr>;
                   p3 = emit (RedisSubscribe ''a'') p2
               in emit (RedisPSubscribe ''g.*'') p3)
         else p)"

text \<open>\<^verbatim>\<open>String.prototype.substr(2)\<close>: the string from index 2 on.\<close>

definition substr2 :: "string \<Rightarrow> string" where
  "substr2 s = drop 2 s"

text \<open>The two listeners on the Redis subscriber; they exist only when a backbone is
  configured. The \<^verbatim>\<open>pmessage\<close> listener names its first two parameters \<^verbatim>\<open>_channel\<close> and
  \<^verbatim>\<open>pattern\<close> and reads the second.\<close>

definition sub_message :: "string \<Rightarrow> 'b \<Rightarrow> 'b UWSProvider \<Rightarrow> 'b UWSProvider" where
  "sub_message channel message p =
     (if sub p = None then p else app_publish (substr2 channel) message p)"

definition sub_pmessage :: "string \<Rightarrow> string \<Rightarrow> 'b \<Rightarrow> 'b UWSProvider \<Rightarrow> 'b UWSProvider" where
  "sub_pmessage channel pattern message p =
     (if sub p = None then p
      else (let group = substr2 pattern;
                p1 = log_if_debug (''Publishing message from REDIS to group '' @ group) p
            in app_publish group message p1))"

definition onConnection :: "ITeckosSocketHandler \<Rightarrow> 'b UWSProvider \<Rightarrow> 'b UWSProvider" where
  "onConnection handler p = p\<lparr>handlers := handlers p @ [handler]\<rparr>"

text \<open>\<^verbatim>\<open>encodePacket\<close> (\<^verbatim>\<open>util/Converter\<close>) is not among the sources: the broadcast methods take
  it as the parameter \<open>enc\<close>.\<close>

definition toAll ::
  "(TeckosPacket \<Rightarrow> 'b) \<Rightarrow> string \<Rightarrow> any list \<Rightarrow> 'b UWSProvider \<Rightarrow> 'b UWSProvider" where
  "toAll enc event args p =
     (let args' = Str event # args;
          buffer = enc \<lparr>pkt_type = EVENT, pkt_data = args'\<rparr>
      in if pub p \<noteq> None then emit (RedisPublish ''a'' buffer) p
         else app_publish ''a'' buffer
                (log_if_debug (''Publishing event '' @ event @ '' to group a'') p))"

definition to ::
  "(TeckosPacket \<Rightarrow> 'b) \<Rightarrow> string \<Rightarrow> string \<Rightarrow> any list \<Rightarrow> 'b UWSProvider \<Rightarrow> 'b UWSProvider"
  where
  "to enc grp event args p =
     (let args' = Str event # args;
          buffer = enc \<lparr>pkt_type = EVENT, pkt_data = args'\<rparr>
      in if pub p \<noteq> None then emit (RedisPublish (''g.'' @ grp) buffer) p
         else app_publish grp buffer
                (log_if_debug (''Publishing event '' @ event @ '' to group '' @ grp) p))"

text \<open>\<^verbatim>\<open>listen\<close>: the promise settles in the callback the transport calls with a listen socket
  or a falsy value (\<open>None\<close>). The port is rendered in decimal in the error message.\<close>

fun digits :: "nat \<Rightarrow> string" where
  "digits n =
     (if n < 10 then [''0123456789'' ! n] else digits (n div 10) @ [''0123456789'' ! (n mod 10)])"

datatype ('e, 'a) promise = Resolved 'a | Rejected 'e

definition listen :: "'b UWSProvider \<Rightarrow> nat \<Rightarrow> 's option \<Rightarrow> (string, 'b UWSProvider) promise" where
  "listen p port socket =
     (case socket of
        Some _ \<Rightarrow> Resolved p
      | None \<Rightarrow> Rejected (''Could not listen on port '' @ digits port))"

subsection \<open>Runs: sequences of callbacks, timer ticks and method calls\<close>

datatype 'b event =
    Open string
  | Pong nat
  | Message nat 'b
  | Drain nat
  | Close nat
  | Sweep
  | SubMessage string 'b
  | SubPMessage string string 'b
  | OnConnection ITeckosSocketHandler
  | ToAll string "any list"
  | To string string "any list"
  | Join string string

definition step ::
  "(TeckosPacket \<Rightarrow> 'b) \<Rightarrow> 'b event \<Rightarrow> 'b UWSProvider \<Rightarrow> fault + 'b UWSProvider" where
  "step enc ev p =
     (case ev of
        Open uuid \<Rightarrow> Inr (on_open uuid p)
      | Pong r \<Rightarrow> Inr (on_pong r p)
      | Message r buffer \<Rightarrow> Inr (on_message r buffer p)
      | Drain r \<Rightarrow> Inr (on_drain r p)
      | Close r \<Rightarrow> Inr (transport_close r p)
      | Sweep \<Rightarrow> keepAliveSockets p
      | SubMessage channel message \<Rightarrow> Inr (sub_message channel message p)
      | SubPMessage channel pattern message \<Rightarrow> Inr (sub_pmessage channel pattern message p)
      | OnConnection handler \<Rightarrow> Inr (onConnection handler p)
      | ToAll event args \<Rightarrow> Inr (toAll enc event args p)
      | To grp event args \<Rightarrow> Inr (to enc grp event args p)
      | Join uuid g \<Rightarrow>
          Inr (case map_of (connections p) uuid of Some s \<Rightarrow> join s g p | None \<Rightarrow> p))"

fun run ::
  "(TeckosPacket \<Rightarrow> 'b) \<Rightarrow> 'b event list \<Rightarrow> 'b UWSProvider \<Rightarrow> fault + 'b UWSProvider" where
  "run enc [] p = Inr p"
| "run enc (ev # evs) p =
     (case step enc ev p of Inl f \<Rightarrow> Inl f | Inr p' \<Rightarrow> run enc evs p')"

subsection \<open>Properties of states and runs\<close>

text \<open>The registry invariant: the keys of \<^verbatim>\<open>_connections\<close> are distinct, and each key maps to a
  handle constructed with that identity, over a connection object the transport has created,
  that carries the same identity and is not closed. Every connection object the transport
  has created carries an identity.\<close>

definition registry_ok :: "'b UWSProvider \<Rightarrow> bool" where
  "registry_ok p \<longleftrightarrow>
     distinct (map fst (connections p))
     \<and> (\<forall>(k, s) \<in> set (connections p).
           sock_id s = k \<and> sock_ws s < allocated p
           \<and> ws_id (sockets p (sock_ws s)) = Some k \<and> \<not> closed (sockets p (sock_ws s)))
     \<and> (\<forall>r < allocated p. ws_id (sockets p r) \<noteq> None)"



text \<open>What a provider shows apart from diagnostic logging and the debug flag itself: the
  state with the flag cleared in the stored options and in every handle, and with the
  \<^verbatim>\<open>console.log\<close> lines taken out of the trace.\<close>

fun is_ConsoleLog :: "'b effect \<Rightarrow> bool" where
  "is_ConsoleLog (ConsoleLog msg) = True"
| "is_ConsoleLog e = False"

definition without_debug :: "'b UWSProvider \<Rightarrow> 'b UWSProvider" where
  "without_debug p =
     p\<lparr>options := (options p)\<lparr>debug := None\<rparr>,
       connections := map (\<lambda>(k, s). (k, s\<lparr>sock_debug := None\<rparr>)) (connections p),
       trace := filter (\<lambda>e. \<not> is_ConsoleLog e) (trace p)\<rparr>"

text \<open>A handler that does not read the handle's debug flag (a private field of the handle).\<close>

definition debug_blind :: "ITeckosSocketHandler \<Rightarrow> bool" where
  "debug_blind h \<longleftrightarrow> (\<forall>s d. h (s\<lparr>sock_debug := d\<rparr>) = h s)"

fun registered_handlers :: "'b event list \<Rightarrow> ITeckosSocketHandler list" where
  "registered_handlers [] = []"
| "registered_handlers (OnConnection h # evs) = h # registered_handlers evs"
| "registered_handlers (ev # evs) = registered_handlers evs"

text \<open>The connection object \<open>r\<close> exists, carries the identity \<open>k\<close>, and is the only connection
  object whose \<^verbatim>\<open>id\<close> reads \<open>k\<close>.\<close>

definition sole_owner :: "'b UWSProvider \<Rightarrow> string \<Rightarrow> nat \<Rightarrow> bool" where
  "sole_owner p k r \<longleftrightarrow>
     r < allocated p \<and> ws_id (sockets p r) = Some k
     \<and> (\<forall>r'. key_of (ws_id (sockets p r')) = k \<longrightarrow> r' = r)"

text \<open>The connection registered as \<open>k\<close> with handle \<open>s\<close> has an unanswered probe (it is
  registered and its liveness flag is false), or it is already closed and unregistered.\<close>

definition unanswered :: "'b UWSProvider \<Rightarrow> string \<Rightarrow> UWSSocket \<Rightarrow> bool" where
  "unanswered p k s \<longleftrightarrow>
     (map_of (connections p) k = Some s \<and> \<not> alive (sockets p (sock_ws s)))
     \<or> (map_of (connections p) k = None \<and> closed (sockets p (sock_ws s)))"

text \<open>The connection object \<open>r\<close>, whose liveness flag is \<open>a\<close>, has its flag true at every
  sweep of the event sequence: a sweep clears the flag and a pong of \<open>r\<close> sets it.\<close>

fun answers_probes :: "nat \<Rightarrow> bool \<Rightarrow> 'b event list \<Rightarrow> bool" where
  "answers_probes r a [] = True"
| "answers_probes r a (Sweep # evs) = (a \<and> answers_probes r False evs)"
| "answers_probes r a (Pong r' # evs) = answers_probes r (a \<or> r' = r) evs"
| "answers_probes r a (ev # evs) = answers_probes r a evs"

section \<open>Frame lemmas: what each operation leaves alone\<close>

lemmas model_defs =
  on_open_def on_pong_def on_message_def on_drain_def on_close_def transport_close_def
  disconnect_def join_def keepAliveSockets_def keepAlive_socket_def constructor_def
  sub_message_def
  sub_pmessage_def onConnection_def toAll_def to_def step_def ws_subscribe_def
  app_publish_def ws_ping_def update_ws_def emit_def log_if_debug_def key_of_def substr2_def
  merge_options_def or_string_def or_number_def truthy_string_def truthy_number_def
  truthy_bool_def DEFAULT_OPTION_def new_WebSocket_def deliver_def Let_def

lemma emit_fields [simp]:
  "options (emit e p) = options p" "pub (emit e p) = pub p" "sub (emit e p) = sub p"
  "connections (emit e p) = connections p" "handlers (emit e p) = handlers p"
  "sockets (emit e p) = sockets p" "allocated (emit e p) = allocated p"
  "trace (emit e p) = trace p @ [e]"
  by (simp_all add: emit_def)

lemma log_if_debug_fields [simp]:
  "options (log_if_debug m p) = options p" "pub (log_if_debug m p) = pub p"
  "sub (log_if_debug m p) = sub p" "connections (log_if_debug m p) = connections p"
  "handlers (log_if_debug m p) = handlers p" "sockets (log_if_debug m p) = sockets p"
  "allocated (log_if_debug m p) = allocated p"
  by (simp_all add: log_if_debug_def)

lemma update_ws_fields [simp]:
  "options (update_ws r f p) = options p" "pub (update_ws r f p) = pub p"
  "sub (update_ws r f p) = sub p" "connections (update_ws r f p) = connections p"
  "handlers (update_ws r f p) = handlers p" "allocated (update_ws r f p) = allocated p"
  "trace (update_ws r f p) = trace p"
  "sockets (update_ws r f p) = (sockets p)(r := f (sockets p r))"
  by (simp_all add: update_ws_def)

lemma ws_subscribe_fields [simp]:
  "options (ws_subscribe r t p) = options p" "pub (ws_subscribe r t p) = pub p"
  "sub (ws_subscribe r t p) = sub p" "connections (ws_subscribe r t p) = connections p"
  "handlers (ws_subscribe r t p) = handlers p" "allocated (ws_subscribe r t p) = allocated p"
  "trace (ws_subscribe r t p) = trace p"
  by (simp_all add: ws_subscribe_def)

lemma app_publish_fields [simp]:
  "options (app_publish t m p) = options p" "pub (app_publish t m p) = pub p"
  "sub (app_publish t m p) = sub p" "connections (app_publish t m p) = connections p"
  "handlers (app_publish t m p) = handlers p" "allocated (app_publish t m p) = allocated p"
  "trace (app_publish t m p) = trace p @ [AppPublish t m]"
  "sockets (app_publish t m p) r = deliver t m (sockets p r)"
  by (simp_all add: app_publish_def)

lemma ws_ping_fields [simp]:
  "options (ws_ping r x p) = options p" "pub (ws_ping r x p) = pub p"
  "sub (ws_ping r x p) = sub p" "connections (ws_ping r x p) = connections p"
  "handlers (ws_ping r x p) = handlers p" "allocated (ws_ping r x p) = allocated p"
  "trace (ws_ping r x p) = trace p @ [WsPing r x]"
  by (simp_all add: ws_ping_def)

lemma on_close_fields [simp]:
  "options (on_close r p) = options p" "pub (on_close r p) = pub p"
  "sub (on_close r p) = sub p" "handlers (on_close r p) = handlers p"
  "sockets (on_close r p) = sockets p" "allocated (on_close r p) = allocated p"
  by (simp_all add: on_close_def Let_def split: option.splits)

lemma transport_close_fields [simp]:
  "options (transport_close r p) = options p" "pub (transport_close r p) = pub p"
  "sub (transport_close r p) = sub p" "handlers (transport_close r p) = handlers p"
  "allocated (transport_close r p) = allocated p"
  by (simp_all add: transport_close_def)

lemma disconnect_fields [simp]:
  "options (disconnect s p) = options p" "pub (disconnect s p) = pub p"
  "sub (disconnect s p) = sub p" "handlers (disconnect s p) = handlers p"
  "allocated (disconnect s p) = allocated p"
  by (simp_all add: disconnect_def)

lemma on_open_fields [simp]:
  "options (on_open u p) = options p" "pub (on_open u p) = pub p"
  "sub (on_open u p) = sub p" "handlers (on_open u p) = handlers p"
  "allocated (on_open u p) = Suc (allocated p)"
  by (simp_all add: on_open_def Let_def split: prod.splits option.splits)

lemma keepAlive_fields:
  "keepAlive ks p = Inr p' \<Longrightarrow>
     options p' = options p \<and> pub p' = pub p \<and> sub p' = sub p \<and> handlers p' = handlers p
     \<and> allocated p' = allocated p"
  by (induction ks arbitrary: p)
    (auto simp: keepAlive_socket_def Let_def split: option.splits if_splits sum.splits)

lemma step_fields:
  "step enc ev p = Inr p' \<Longrightarrow> options p' = options p \<and> pub p' = pub p \<and> sub p' = sub p"
  by (cases ev)
    (auto simp: step_def on_pong_def on_message_def on_drain_def sub_message_def
      sub_pmessage_def onConnection_def toAll_def to_def join_def keepAliveSockets_def Let_def
      dest: keepAlive_fields split: option.splits)

lemma run_fields:
  "run enc evs p = Inr p' \<Longrightarrow> options p' = options p \<and> pub p' = pub p \<and> sub p' = sub p"
proof (induction evs arbitrary: p)
  case Nil
  then show ?case by simp
next
  case (Cons ev evs)
  then obtain q where q: "step enc ev p = Inr q" and r: "run enc evs q = Inr p'"
    by (auto split: sum.splits)
  from step_fields [OF q] Cons.IH [OF r] show ?case by simp
qed

lemma options_constructor: "options (constructor opts) = merge_options opts"
  by (simp add: constructor_def Let_def)

section \<open>The stored configuration\<close>

text \<open>
  Claim C3, as amended. For every options argument of the constructor, the stored
  \<^verbatim>\<open>pingInterval\<close> is the caller's when that is given and not 0 (truthy), and 25000 otherwise.
  The stored configuration never changes afterwards: every run of callbacks, sweeps and method
  calls that returns, and \<^verbatim>\<open>listen\<close>, leave \<^verbatim>\<open>_options\<close> as the constructor wrote it.
\<close>

theorem constructor_pingInterval:
  "pingInterval (options (constructor opts :: 'b UWSProvider)) =
     (if truthy_number (Option.bind opts pingInterval) then Option.bind opts pingInterval
      else Some 25000)
   \<and> (\<forall>enc evs p. run enc evs (constructor opts :: 'b UWSProvider) = Inr p \<longrightarrow>
         options p = options (constructor opts :: 'b UWSProvider))
   \<and> (\<forall>port (socket :: unit option) p.
         listen (constructor opts :: 'b UWSProvider) port socket = Resolved p \<longrightarrow>
         options p = options (constructor opts :: 'b UWSProvider))"
  by (auto simp: options_constructor merge_options_def or_number_def DEFAULT_OPTION_def
      listen_def dest: run_fields split: option.splits)

theorem constructor_pingInterval_witness:
  "pingInterval (options (constructor
      (Some \<lparr>redisUrl = None, pingInterval = Some 10000, pingTimeout = None,
             debug = None\<rparr>) :: nat UWSProvider)) = Some 10000
   \<and> (\<exists>p. run (\<lambda>pk. 0) [Open ''c1'', ToAll ''ping'' [Num 42], Sweep]
          (constructor (Some \<lparr>redisUrl = None, pingInterval = Some 10000, pingTimeout = None,
             debug = None\<rparr>)) = Inr (p :: nat UWSProvider)
        \<and> pingInterval (options p) = Some 10000)
   \<and> (\<exists>p. listen (constructor (Some \<lparr>redisUrl = None, pingInterval = Some 10000,
             pingTimeout = None, debug = None\<rparr>) :: nat UWSProvider) 8080 (Some ())
          = Resolved p \<and> pingInterval (options p) = Some 10000)"
proof -
  let ?o = "Some \<lparr>redisUrl = None, pingInterval = Some 10000, pingTimeout = None,
    debug = None\<rparr>"
  let ?c = "constructor ?o :: nat UWSProvider"
  note c = constructor_pingInterval [of ?o, where ?'b = nat]
  from c have i: "pingInterval (options ?c) = Some 10000"
    by (simp add: truthy_number_def)
  have "\<exists>p. run (\<lambda>pk. 0) [Open ''c1'', ToAll ''ping'' [Num 42], Sweep] ?c = Inr p"
    by (simp add: model_defs)
  then obtain p where p: "run (\<lambda>pk. 0) [Open ''c1'', ToAll ''ping'' [Num 42], Sweep] ?c = Inr p"
    by blast
  have l: "listen ?c 8080 (Some ()) = Resolved ?c"
    by (simp add: listen_def)
  from c p have "options p = options ?c" by blast
  with i have ip: "pingInterval (options p) = Some 10000" by simp
  from p ip have 2: "\<exists>p. run (\<lambda>pk. 0) [Open ''c1'', ToAll ''ping'' [Num 42], Sweep] ?c = Inr p
      \<and> pingInterval (options p) = Some 10000"
    by blast
  from l i have 3: "\<exists>p. listen ?c 8080 (Some ()) = Resolved p \<and> pingInterval (options p) = Some 10000"
    by blast
  from i 2 3 show ?thesis by blast
qed

text \<open>
  Claim C3 as stated fails: a caller who gives \<^verbatim>\<open>{pingInterval: 0, pingTimeout: 1000}\<close> finds
  neither value stored. The interval 0 is falsy and replaced by the default, and the stored
  timeout is computed from \<^verbatim>\<open>options?.pingInterval\<close>, never from \<^verbatim>\<open>options?.pingTimeout\<close>.
\<close>

theorem constructor_options_counterexample:
  "pingInterval (options (constructor
      (Some \<lparr>redisUrl = None, pingInterval = Some 0, pingTimeout = Some 1000,
             debug = None\<rparr>) :: nat UWSProvider)) = Some 25000
   \<and> pingTimeout (options (constructor
      (Some \<lparr>redisUrl = None, pingInterval = Some 0, pingTimeout = Some 1000,
             debug = None\<rparr>) :: nat UWSProvider)) = Some 5000"
  by (simp add: options_constructor merge_options_def or_number_def truthy_number_def
      DEFAULT_OPTION_def)

section \<open>Listening\<close>

text \<open>
  Claim C8. \<^verbatim>\<open>listen(port)\<close> resolves, with the provider itself, exactly when the transport's
  callback reports a listen socket, and rejects with the error
  \<^verbatim>\<open>Could not listen on port <port>\<close> exactly when it reports none.
\<close>

theorem listen_settles:
  "(listen p port socket = Resolved p) = (socket \<noteq> None)
   \<and> (listen p port socket = Rejected (''Could not listen on port '' @ digits port))
       = (socket = None)"
  by (cases socket) (simp_all add: listen_def)

section \<open>Connection handlers\<close>

lemma forEach_handlers_all_return:
  "\<forall>h\<in>set hs. h s = None \<Longrightarrow>
     forEach_handlers hs i s = (map (\<lambda>k. HandlerCall k (sock_id s)) [i..<i + length hs], None)"
  by (induction hs arbitrary: i) (simp_all add: upt_conv_Cons del: upt_Suc)

lemma forEach_handlers_first_throw:
  "j < length hs \<Longrightarrow> (hs ! j) s = Some e \<Longrightarrow> \<forall>k<j. (hs ! k) s = None \<Longrightarrow>
     forEach_handlers hs i s = (map (\<lambda>k. HandlerCall k (sock_id s)) [i..<i + Suc j], Some e)"
proof (induction hs arbitrary: i j)
  case Nil
  then show ?case by simp
next
  case (Cons h hs)
  show ?case
  proof (cases j)
    case 0
    with Cons.prems show ?thesis by simp
  next
    case (Suc j')
    with Cons.prems have h: "h s = None" by auto
    from Suc Cons.prems have "j' < length hs" "(hs ! j') s = Some e" "\<forall>k<j'. (hs ! k) s = None"
      by auto
    note Cons.IH [OF this, of "Suc i"]
    with h Suc show ?thesis by (simp add: upt_conv_Cons del: upt_Suc)
  qed
qed

lemma trace_on_open:
  "trace (on_open uuid p) =
     (case forEach_handlers (handlers p) 0
             \<lparr>sock_id = uuid, sock_ws = allocated p, sock_debug = debug (options p)\<rparr> of
        (calls, None) \<Rightarrow> trace p @ calls
      | (calls, Some e) \<Rightarrow> trace p @ calls @ [ConsoleError e])"
  by (simp add: on_open_def Let_def split: prod.splits option.splits)

lemma connections_on_open:
  "connections (on_open uuid p) =
     AList.update uuid \<lparr>sock_id = uuid, sock_ws = allocated p, sock_debug = debug (options p)\<rparr>
       (connections p)"
  by (simp add: on_open_def Let_def split: prod.splits option.splits)

lemma sockets_on_open:
  "sockets (on_open uuid p) =
     (sockets p)(allocated p :=
        \<lparr>ws_id = Some uuid, alive = True, topics = [''a''], inbox = [], pings = 0,
         closed = False\<rparr>)"
  by (simp add: on_open_def Let_def ws_subscribe_def new_WebSocket_def
      split: prod.splits option.splits)

text \<open>
  Claim C2, as amended. \<^verbatim>\<open>onConnection\<close> appends to the handler list, so list order is
  registration order. For a new connection the open callback calls the handlers in that order,
  once each, up to and including the first one that throws: when none throws, every handler is
  called once; when the handler at position \<open>j\<close> is the first to throw, the calls are those at
  positions \<open>0\<close> to \<open>j\<close>, the thrown value is logged with \<^verbatim>\<open>console.error\<close>, and the
  handlers after \<open>j\<close> are not called. Either way the connection is registered under its
  identity.
\<close>

theorem on_open_handlers:
  "handlers (onConnection h p) = handlers p @ [h]
   \<and> ((\<forall>h \<in> set (handlers p).
          h \<lparr>sock_id = uuid, sock_ws = allocated p, sock_debug = debug (options p)\<rparr> = None) \<longrightarrow>
        trace (on_open uuid p) =
          trace p @ map (\<lambda>k. HandlerCall k uuid) [0..<length (handlers p)])
   \<and> (j < length (handlers p)
        \<and> (handlers p ! j)
             \<lparr>sock_id = uuid, sock_ws = allocated p, sock_debug = debug (options p)\<rparr> = Some e
        \<and> (\<forall>k<j. (handlers p ! k)
             \<lparr>sock_id = uuid, sock_ws = allocated p, sock_debug = debug (options p)\<rparr> = None) \<longrightarrow>
        trace (on_open uuid p) =
          trace p @ map (\<lambda>k. HandlerCall k uuid) [0..<Suc j] @ [ConsoleError e])
   \<and> map_of (connections (on_open uuid p)) uuid =
        Some \<lparr>sock_id = uuid, sock_ws = allocated p, sock_debug = debug (options p)\<rparr>"
proof -
  let ?s = "\<lparr>sock_id = uuid, sock_ws = allocated p, sock_debug = debug (options p)\<rparr>"
  have 1: "handlers (onConnection h p) = handlers p @ [h]"
    by (simp add: onConnection_def)
  have 2: "trace (on_open uuid p) =
      trace p @ map (\<lambda>k. HandlerCall k uuid) [0..<length (handlers p)]"
    if "\<forall>h \<in> set (handlers p). h ?s = None"
    by (simp add: trace_on_open forEach_handlers_all_return [OF that])
  have 3: "trace (on_open uuid p) =
      trace p @ map (\<lambda>k. HandlerCall k uuid) [0..<Suc j] @ [ConsoleError e]"
    if "j < length (handlers p)" "(handlers p ! j) ?s = Some e"
      "\<forall>k<j. (handlers p ! k) ?s = None"
    by (simp add: trace_on_open forEach_handlers_first_throw [OF that] del: upt_Suc)
  have 4: "map_of (connections (on_open uuid p)) uuid = Some ?s"
    by (simp add: connections_on_open update_conv')
  from 1 2 3 4 show ?thesis by blast
qed

theorem on_open_handlers_witness:
  "trace (on_open ''c1'' (onConnection (\<lambda>s. None) (onConnection (\<lambda>s. None)
      (constructor None :: nat UWSProvider)))) = [HandlerCall 0 ''c1'', HandlerCall 1 ''c1'']
   \<and> trace (on_open ''c1'' (onConnection (\<lambda>s. None) (onConnection (\<lambda>s. Some ''boom'')
      (onConnection (\<lambda>s. None) (constructor None :: nat UWSProvider))))) =
        [HandlerCall 0 ''c1'', HandlerCall 1 ''c1'', ConsoleError ''boom'']"
proof -
  let ?p = "onConnection (\<lambda>s. None) (onConnection (\<lambda>s. None)
      (constructor None :: nat UWSProvider))"
  let ?q = "onConnection (\<lambda>s. None) (onConnection (\<lambda>s. Some ''boom'')
      (onConnection (\<lambda>s. None) (constructor None :: nat UWSProvider)))"
  have hp: "handlers ?p = [\<lambda>s. None, \<lambda>s. None]" 
    and hq: "handlers ?q = [\<lambda>s. None, \<lambda>s. Some ''boom'', \<lambda>s. None]"
    and tp: "trace ?p = []" and tq: "trace ?q = []"
    by (simp_all add: onConnection_def constructor_def merge_options_def or_string_def
        truthy_string_def Let_def)
  have a: "trace (on_open ''c1'' ?p) = [HandlerCall 0 ''c1'', HandlerCall 1 ''c1'']"
    using on_open_handlers [of undefined ?p "''c1''" 0 undefined]
    by (simp add: hp tp upt_rec)
  have b: "trace (on_open ''c1'' ?q) =
      [HandlerCall 0 ''c1'', HandlerCall 1 ''c1'', ConsoleError ''boom'']"
    using on_open_handlers [of undefined ?q "''c1''" 1 "''boom''"]
    by (simp add: hq tq upt_rec)
  from a b show ?thesis by simp
qed

text \<open>
  Claim C2 as stated fails: the \<^verbatim>\<open>try\<close> block encloses the whole \<^verbatim>\<open>forEach\<close>, so a throwing
  handler ends the loop. With a throwing handler registered first and a second handler after
  it, the second handler is never called for the new connection.
\<close>

theorem on_open_handlers_counterexample:
  "HandlerCall 1 ''c1'' \<notin> set (trace (on_open ''c1''
      (onConnection (\<lambda>s. None) (onConnection (\<lambda>s. Some ''boom'')
         (constructor None :: nat UWSProvider)))))"
  by (simp add: trace_on_open onConnection_def constructor_def merge_options_def or_string_def
      truthy_string_def Let_def)

section \<open>Broadcasting\<close>

lemma sockets_toAll:
  "sockets (toAll enc ev args p) r =
     (if pub p \<noteq> None then sockets p r
      else deliver ''a'' (enc \<lparr>pkt_type = EVENT, pkt_data = Str ev # args\<rparr>) (sockets p r))"
  by (simp add: toAll_def Let_def)

lemma sockets_to:
  "sockets (to enc g ev args p) r =
     (if pub p \<noteq> None then sockets p r
      else deliver g (enc \<lparr>pkt_type = EVENT, pkt_data = Str ev # args\<rparr>) (sockets p r))"
  by (simp add: to_def Let_def)

lemma toAll_fields [simp]:
  "options (toAll enc ev args p) = options p" "pub (toAll enc ev args p) = pub p"
  "sub (toAll enc ev args p) = sub p" "connections (toAll enc ev args p) = connections p"
  "handlers (toAll enc ev args p) = handlers p" "allocated (toAll enc ev args p) = allocated p"
  by (simp_all add: toAll_def Let_def)

lemma to_fields [simp]:
  "options (to enc g ev args p) = options p" "pub (to enc g ev args p) = pub p"
  "sub (to enc g ev args p) = sub p" "connections (to enc g ev args p) = connections p"
  "handlers (to enc g ev args p) = handlers p" "allocated (to enc g ev args p) = allocated p"
  by (simp_all add: to_def Let_def)



lemma inbox_deliver:
  "inbox (deliver t m w) = (if \<not> closed w \<and> t \<in> set (topics w) then inbox w @ [m] else inbox w)"
  by (simp add: deliver_def)

lemma deliver_other_fields [simp]:
  "ws_id (deliver t m w) = ws_id w" "alive (deliver t m w) = alive w"
  "topics (deliver t m w) = topics w" "pings (deliver t m w) = pings w"
  "closed (deliver t m w) = closed w"
  by (simp_all add: deliver_def)




section \<open>Closing a connection\<close>

lemma sockets_transport_close:
  "sockets (transport_close r p) = (sockets p)(r := (sockets p r)\<lparr>closed := True, topics := []\<rparr>)"
  by (simp add: transport_close_def)

lemma connections_on_close:
  "connections (on_close r p) = AList.delete (key_of (ws_id (sockets p r))) (connections p)"
proof (cases "map_of (connections p) (key_of (ws_id (sockets p r)))")
  case None
  then have "key_of (ws_id (sockets p r)) \<notin> fst ` set (connections p)"
    by (simp add: map_of_eq_None_iff)
  with None show ?thesis by (simp add: on_close_def)
next
  case (Some s)
  then show ?thesis by (simp add: on_close_def Let_def)
qed

lemma connections_transport_close:
  "connections (transport_close r p) = AList.delete (key_of (ws_id (sockets p r))) (connections p)"
  by (simp add: transport_close_def connections_on_close)

lemma on_close_unregistered:
  "map_of (connections p) (key_of (ws_id (sockets p r))) = None \<Longrightarrow> on_close r p = p"
  by (simp add: on_close_def)

lemma transport_close_twice: "transport_close r (transport_close r p) = transport_close r p"
proof -
  let ?q = "transport_close r p"
  have k: "map_of (connections ?q) (key_of (ws_id (sockets ?q r))) = None"
    by (simp add: connections_transport_close sockets_transport_close delete_conv')
  have u: "update_ws r (\<lambda>w. w\<lparr>closed := True, topics := []\<rparr>) ?q = ?q"
    by (simp add: update_ws_def sockets_transport_close)
  have "transport_close r ?q = on_close r ?q"
    by (simp only: transport_close_def [of r ?q] u)
  also have "\<dots> = ?q" using k by (rule on_close_unregistered)
  finally show ?thesis .
qed

text \<open>
  Claim C7. After the transport has closed a connection and run the \<^verbatim>\<open>close\<close> callback, the
  connection map has no entry for the connection's identity. A later broadcast to ALL returns
  normally and adds nothing to the closed connection's inbox (with a backbone the same holds
  for the relayed message). Later operations addressed to that identity return normally too:
  a message frame only logs \<^verbatim>\<open>Got message from unknown connection\<close>, a drain notice only
  logs when debugging, a second close and a join under that identity change nothing, and a
  pong changes neither the connection map nor the trace.
\<close>

theorem closed_connection_is_gone:
  "(let u = key_of (ws_id (sockets p r)); p' = transport_close r p in
      map_of (connections p') u = None
      \<and> closed (sockets p' r)
      \<and> (\<exists>q. step enc (ToAll ev args) p' = Inr q
            \<and> inbox (sockets q r) = inbox (sockets p' r) \<and> connections q = connections p')
      \<and> (\<exists>q. step enc (SubMessage channel message) p' = Inr q
            \<and> inbox (sockets q r) = inbox (sockets p' r) \<and> connections q = connections p')
      \<and> step enc (Message r buffer) p'
          = Inr (emit (ConsoleError (''Got message from unknown connection: '' @ u)) p')
      \<and> step enc (Drain r) p' = Inr (log_if_debug (''Drain: '' @ u) p')
      \<and> step enc (Close r) p' = Inr p'
      \<and> step enc (Join u g) p' = Inr p'
      \<and> (\<exists>q. step enc (Pong r) p' = Inr q \<and> connections q = connections p'
            \<and> trace q = trace p' \<and> closed (sockets q r)))"
proof -
  let ?u = "key_of (ws_id (sockets p r))"
  let ?p' = "transport_close r p"
  have gone: "map_of (connections ?p') ?u = None"
    by (simp add: connections_transport_close delete_conv')
  have cl: "closed (sockets ?p' r)" and id': "ws_id (sockets ?p' r) = ws_id (sockets p r)"
    by (simp_all add: sockets_transport_close)
  have 1: "\<exists>q. step enc (ToAll ev args) ?p' = Inr q
            \<and> inbox (sockets q r) = inbox (sockets ?p' r) \<and> connections q = connections ?p'"
    using cl by (simp add: step_def sockets_toAll inbox_deliver)
  have 2: "\<exists>q. step enc (SubMessage channel message) ?p' = Inr q
            \<and> inbox (sockets q r) = inbox (sockets ?p' r) \<and> connections q = connections ?p'"
    using cl by (simp add: step_def sub_message_def inbox_deliver)
  have 3: "step enc (Message r buffer) ?p'
          = Inr (emit (ConsoleError (''Got message from unknown connection: '' @ ?u)) ?p')"
    using gone by (simp add: step_def on_message_def id')
  have 4: "step enc (Drain r) ?p' = Inr (log_if_debug (''Drain: '' @ ?u) ?p')"
    by (simp add: step_def on_drain_def id')
  have 5: "step enc (Close r) ?p' = Inr ?p'"
    by (simp add: step_def transport_close_twice)
  have 6: "step enc (Join ?u g) ?p' = Inr ?p'"
    using gone by (simp add: step_def)
  have 7: "\<exists>q. step enc (Pong r) ?p' = Inr q \<and> connections q = connections ?p'
            \<and> trace q = trace ?p' \<and> closed (sockets q r)"
    using cl by (simp add: step_def on_pong_def)
  from gone cl 1 2 3 4 5 6 7 show ?thesis unfolding Let_def by blast
qed

section \<open>The inbound relay of broadcasts to ALL\<close>

lemma sub_message_all:
  "sub p \<noteq> None \<Longrightarrow> sub_message ''a'' message p = app_publish [] message p"
  by (auto simp: sub_message_def substr2_def)

text \<open>
  Claim C1 at a concrete input. A provider with a backbone has one open connection, subscribed
  to \<^verbatim>\<open>a\<close> by the open callback. \<^verbatim>\<open>toAll("ping", 42)\<close> publishes the packet to Redis on channel
  \<^verbatim>\<open>a\<close>. When Redis hands it to the subscriber's \<^verbatim>\<open>message\<close> listener, the listener
  publishes it locally on \<^verbatim>\<open>channel.substr(2)\<close>, which for the channel \<^verbatim>\<open>a\<close> is the empty
  topic: the registered, open connection receives nothing.
\<close>

theorem relay_all_reaches_nobody:
  "(let p0 = constructor (Some \<lparr>redisUrl = Some ''redis://backbone'', pingInterval = None,
                                pingTimeout = None, debug = None\<rparr>) :: TeckosPacket UWSProvider;
        p1 = on_open ''c1'' p0;
        p2 = toAll (\<lambda>pk. pk) ''ping'' [Num 42] p1;
        buffer = \<lparr>pkt_type = EVENT, pkt_data = [Str ''ping'', Num 42]\<rparr>;
        p3 = sub_message ''a'' buffer p2
    in trace p2 = trace p1 @ [RedisPublish ''a'' buffer]
       \<and> trace p3 = trace p2 @ [AppPublish '''' buffer]
       \<and> map_of (connections p3) ''c1'' = Some \<lparr>sock_id = ''c1'', sock_ws = 0, sock_debug = None\<rparr>
       \<and> topics (sockets p3 0) = [''a''] \<and> \<not> closed (sockets p3 0)
       \<and> inbox (sockets p3 0) = [])"
  by (simp add: model_defs)

section \<open>Broadcasting to a group\<close>

lemma topics_join:
  "\<not> closed (sockets p (sock_ws s)) \<Longrightarrow>
     set (topics (sockets (join s g p) (sock_ws s))) = insert g (set (topics (sockets p (sock_ws s))))"
  by (auto simp: join_def ws_subscribe_def)

text \<open>
  Claim C4, as amended. The open callback subscribes every connection to the topic \<^verbatim>\<open>a\<close>, and
  joining a group adds the group's name to an open connection's topics. Without a backbone,
  for every group name \<open>g\<close> other than \<^verbatim>\<open>a\<close> and every two open connections of which the
  first has joined \<open>g\<close> and the second has joined at most a different group \<open>h\<close>, \<^verbatim>\<open>to(g, ...)\<close>
  appends the encoded packet once to the first connection's inbox and leaves the second's
  unchanged.
\<close>

theorem to_group_delivery:
  "topics (sockets (on_open u p) (allocated p)) = [''a'']
   \<and> (\<not> closed (sockets p (sock_ws s)) \<longrightarrow>
        set (topics (sockets (join s g p) (sock_ws s)))
          = insert g (set (topics (sockets p (sock_ws s)))))
   \<and> (pub p = None \<and> \<not> closed (sockets p r1) \<and> \<not> closed (sockets p r2)
        \<and> g \<in> set (topics (sockets p r1))
        \<and> set (topics (sockets p r2)) \<subseteq> {''a'', h} \<and> h \<noteq> g \<and> g \<noteq> ''a'' \<longrightarrow>
        inbox (sockets (to enc g ev args p) r1)
          = inbox (sockets p r1) @ [enc \<lparr>pkt_type = EVENT, pkt_data = Str ev # args\<rparr>]
        \<and> inbox (sockets (to enc g ev args p) r2) = inbox (sockets p r2))"
proof (intro conjI impI)
  show "topics (sockets (on_open u p) (allocated p)) = [''a'']"
    by (simp add: sockets_on_open)
next
  assume "\<not> closed (sockets p (sock_ws s))"
  then show "set (topics (sockets (join s g p) (sock_ws s)))
      = insert g (set (topics (sockets p (sock_ws s))))"
    by (rule topics_join)
next
  assume a: "pub p = None \<and> \<not> closed (sockets p r1) \<and> \<not> closed (sockets p r2)
        \<and> g \<in> set (topics (sockets p r1))
        \<and> set (topics (sockets p r2)) \<subseteq> {''a'', h} \<and> h \<noteq> g \<and> g \<noteq> ''a''"
  then show "inbox (sockets (to enc g ev args p) r1)
          = inbox (sockets p r1) @ [enc \<lparr>pkt_type = EVENT, pkt_data = Str ev # args\<rparr>]"
    by (simp add: sockets_to inbox_deliver)
  from a have "g \<notin> set (topics (sockets p r2))" by auto
  with a show "inbox (sockets (to enc g ev args p) r2) = inbox (sockets p r2)"
    by (simp add: sockets_to inbox_deliver)
qed

theorem to_group_delivery_witness:
  "(let p0 = constructor None :: TeckosPacket UWSProvider;
        p2 = on_open ''c2'' (on_open ''c1'' p0);
        p3 = join \<lparr>sock_id = ''c1'', sock_ws = 0, sock_debug = None\<rparr> ''red'' p2;
        p4 = join \<lparr>sock_id = ''c2'', sock_ws = 1, sock_debug = None\<rparr> ''blue'' p3;
        p5 = to (\<lambda>pk. pk) ''red'' ''ping'' [Num 42] p4
    in topics (sockets p4 0) = [''a'', ''red''] \<and> topics (sockets p4 1) = [''a'', ''blue'']
       \<and> inbox (sockets p5 0) = [\<lparr>pkt_type = EVENT, pkt_data = [Str ''ping'', Num 42]\<rparr>]
       \<and> inbox (sockets p5 1) = [])"
proof -
  let ?p0 = "constructor None :: TeckosPacket UWSProvider"
  let ?p2 = "on_open ''c2'' (on_open ''c1'' ?p0)"
  let ?s1 = "\<lparr>sock_id = ''c1'', sock_ws = 0, sock_debug = None\<rparr>"
  let ?s2 = "\<lparr>sock_id = ''c2'', sock_ws = 1, sock_debug = None\<rparr>"
  let ?p3 = "join ?s1 ''red'' ?p2"
  let ?p4 = "join ?s2 ''blue'' ?p3"
  have t: "topics (sockets ?p4 0) = [''a'', ''red'']" "topics (sockets ?p4 1) = [''a'', ''blue'']"
    "\<not> closed (sockets ?p4 0)" "\<not> closed (sockets ?p4 1)" "pub ?p4 = None"
    "inbox (sockets ?p4 0) = []" "inbox (sockets ?p4 1) = []"
    by (simp_all add: model_defs)
  from t to_group_delivery [of undefined ?p4 undefined "''red''" 0 1 "''blue''" "\<lambda>pk. pk"
      "''ping''" "[Num 42]"]
  show ?thesis unfolding Let_def by simp
qed

text \<open>
  Claim C4 as stated fails at the group name \<^verbatim>\<open>a\<close>, the topic of broadcasts to ALL: a
  connection that has joined only the group \<^verbatim>\<open>blue\<close> receives a packet sent with
  \<^verbatim>\<open>to("a", ...)\<close>.
\<close>

theorem to_group_delivery_counterexample:
  "(let p0 = constructor None :: TeckosPacket UWSProvider;
        p2 = on_open ''c2'' (on_open ''c1'' p0);
        p3 = join \<lparr>sock_id = ''c1'', sock_ws = 0, sock_debug = None\<rparr> ''a'' p2;
        p4 = join \<lparr>sock_id = ''c2'', sock_ws = 1, sock_debug = None\<rparr> ''blue'' p3;
        p5 = to (\<lambda>pk. pk) ''a'' ''ping'' [Num 42] p4
    in pub p4 = None \<and> ''a'' \<in> set (topics (sockets p4 0))
       \<and> topics (sockets p4 1) = [''a'', ''blue'']
       \<and> inbox (sockets p5 1) = [\<lparr>pkt_type = EVENT, pkt_data = [Str ''ping'', Num 42]\<rparr>])"
  by (simp add: model_defs)

section \<open>The registry invariant\<close>

lemma registry_ok_iff:
  "registry_ok p \<longleftrightarrow>
     distinct (map fst (connections p))
     \<and> (\<forall>k s. map_of (connections p) k = Some s \<longrightarrow>
           sock_id s = k \<and> sock_ws s < allocated p
           \<and> ws_id (sockets p (sock_ws s)) = Some k \<and> \<not> closed (sockets p (sock_ws s)))
     \<and> (\<forall>r < allocated p. ws_id (sockets p r) \<noteq> None)"
  unfolding registry_ok_def by (cases "distinct (map fst (connections p))") auto

lemma registry_okD:
  assumes "registry_ok p" "map_of (connections p) k = Some s"
  shows "sock_id s = k" "sock_ws s < allocated p" "ws_id (sockets p (sock_ws s)) = Some k"
    "\<not> closed (sockets p (sock_ws s))"
  using assms unfolding registry_ok_iff by blast+

lemma registry_ok_constructor: "registry_ok (constructor opts)"
  by (simp add: registry_ok_def constructor_def Let_def)

lemma registry_ok_on_open:
  assumes "registry_ok p"
  shows "registry_ok (on_open u p)"
proof -
  have "sock_ws s \<noteq> allocated p" if "map_of (connections p) k = Some s" for k s
    using registry_okD(2) [OF assms that] by simp
  with assms show ?thesis
    unfolding registry_ok_iff
    by (auto simp: connections_on_open sockets_on_open update_conv' distinct_update less_Suc_eq
        split: if_splits)
qed

lemma registry_ok_transport_close:
  assumes "registry_ok p"
  shows "registry_ok (transport_close r p)"
proof -
  have "sock_ws s \<noteq> r"
    if "map_of (connections p) k = Some s" "k \<noteq> key_of (ws_id (sockets p r))" for k s
    using registry_okD(3) [OF assms that(1)] that(2) by (auto simp: key_of_def)
  with assms show ?thesis
    unfolding registry_ok_iff
    by (auto simp: connections_transport_close sockets_transport_close delete_conv'
        distinct_delete split: if_splits)
qed

lemma registry_ok_cong:
  assumes "registry_ok p" "connections q = connections p" "allocated q = allocated p"
    "\<And>r. ws_id (sockets q r) = ws_id (sockets p r)"
    "\<And>r. closed (sockets q r) = closed (sockets p r)"
  shows "registry_ok q"
  using assms unfolding registry_ok_def by simp

lemma registry_ok_disconnect:
  "registry_ok p \<Longrightarrow> registry_ok (disconnect s p)"
proof -
  assume a: "registry_ok p"
  have "registry_ok (emit (WsClose (sock_ws s)) p)"
    by (rule registry_ok_cong [OF a]) simp_all
  then have "registry_ok (transport_close (sock_ws s) (emit (WsClose (sock_ws s)) p))"
    by (rule registry_ok_transport_close)
  with a show ?thesis by (simp add: disconnect_def)
qed

lemma registry_ok_keepAlive_socket:
  assumes "registry_ok p" "keepAlive_socket u p = Inr p'"
  shows "registry_ok p'"
proof -
  from assms(2) obtain s where s: "map_of (connections p) u = Some s"
    by (auto simp: keepAlive_socket_def split: option.splits)
  show ?thesis
  proof (cases "alive (sockets p (sock_ws s))")
    case True
    with s assms(2)
    have p': "p' = ws_ping (sock_ws s) ''hey'' (update_ws (sock_ws s) (\<lambda>w. w\<lparr>alive := False\<rparr>) p)"
      by (simp add: keepAlive_socket_def Let_def)
    show ?thesis
      by (rule registry_ok_cong [OF assms(1)]) (simp_all add: p' ws_ping_def)
  next
    case False
    with s assms(2)
    have p': "p' = disconnect s (log_if_debug
        (''Ping pong timeout for '' @ u @ '', disconnecting client...'') p)"
      by (simp add: keepAlive_socket_def Let_def)
    have "registry_ok (log_if_debug
        (''Ping pong timeout for '' @ u @ '', disconnecting client...'') p)"
      by (rule registry_ok_cong [OF assms(1)]) simp_all
    then show ?thesis unfolding p' by (rule registry_ok_disconnect)
  qed
qed

text \<open>What one step of the sweep does to the registry under the invariant.\<close>

lemma keepAlive_socket_registered:
  assumes ok: "registry_ok p" and s: "map_of (connections p) u = Some s"
  shows "\<exists>p'. keepAlive_socket u p = Inr p'
      \<and> connections p' =
          (if alive (sockets p (sock_ws s)) then connections p
           else AList.delete u (connections p))
      \<and> sockets p' =
          (sockets p)(sock_ws s :=
             (if alive (sockets p (sock_ws s))
              then (sockets p (sock_ws s))\<lparr>alive := False, pings := Suc (pings (sockets p (sock_ws s)))\<rparr>
              else (sockets p (sock_ws s))\<lparr>closed := True, topics := []\<rparr>))"
proof (cases "alive (sockets p (sock_ws s))")
  case True
  with s show ?thesis
    by (simp add: keepAlive_socket_def Let_def ws_ping_def)
next
  case False
  from registry_okD [OF ok s]
  have k: "key_of (ws_id (sockets p (sock_ws s))) = u" and c: "\<not> closed (sockets p (sock_ws s))"
    by (simp_all add: key_of_def)
  from False s k c show ?thesis
    by (simp add: keepAlive_socket_def Let_def disconnect_def connections_transport_close
        sockets_transport_close)
qed

lemma keepAlive_total:
  "registry_ok p \<Longrightarrow> distinct ks \<Longrightarrow> set ks \<subseteq> fst ` set (connections p) \<Longrightarrow>
     \<exists>p'. keepAlive ks p = Inr p' \<and> registry_ok p'"
proof (induction ks arbitrary: p)
  case Nil
  then show ?case by simp
next
  case (Cons u ks)
  from Cons.prems obtain s where s: "map_of (connections p) u = Some s"
    by (cases "map_of (connections p) u") (auto simp: map_of_eq_None_iff)
  from keepAlive_socket_registered [OF Cons.prems(1) s]
  obtain p1 where p1: "keepAlive_socket u p = Inr p1"
    and c1: "connections p1 =
          (if alive (sockets p (sock_ws s)) then connections p
           else AList.delete u (connections p))"
    by blast
  have ok1: "registry_ok p1"
    using Cons.prems(1) p1 by (rule registry_ok_keepAlive_socket)
  from Cons.prems(2) have d: "distinct ks" and n: "u \<notin> set ks" by simp_all
  have "set ks \<subseteq> fst ` set (connections p1)"
  proof
    fix k assume k: "k \<in> set ks"
    with n have "k \<noteq> u" by blast
    moreover from k Cons.prems(3) have "k \<in> fst ` set (connections p)" by auto
    ultimately show "k \<in> fst ` set (connections p1)"
      by (auto simp: c1 AList.delete_eq)
  qed
  from Cons.IH [OF ok1 d this] p1 show ?case by simp
qed

lemma keepAliveSockets_total:
  "registry_ok p \<Longrightarrow> \<exists>p'. keepAliveSockets p = Inr p' \<and> registry_ok p'"
  unfolding keepAliveSockets_def
  by (rule keepAlive_total) (simp_all add: registry_ok_def)

lemma registry_ok_join: "registry_ok p \<Longrightarrow> registry_ok (join s g p)"
  by (erule registry_ok_cong) (simp_all add: join_def ws_subscribe_def)

lemma step_total:
  assumes "registry_ok p"
  shows "\<exists>p'. step enc ev p = Inr p' \<and> registry_ok p'"
proof (cases ev)
  case (Open u)
  with assms show ?thesis by (simp add: step_def registry_ok_on_open)
next
  case (Pong r)
  have "registry_ok (on_pong r p)"
    by (rule registry_ok_cong [OF assms]) (simp_all add: on_pong_def)
  with Pong show ?thesis by (simp add: step_def)
next
  case (Message r b)
  have "registry_ok (on_message r b p)"
    by (rule registry_ok_cong [OF assms]) (simp_all add: on_message_def Let_def split: option.splits)
  with Message show ?thesis by (simp add: step_def)
next
  case (Drain r)
  have "registry_ok (on_drain r p)"
    by (rule registry_ok_cong [OF assms]) (simp_all add: on_drain_def Let_def)
  with Drain show ?thesis by (simp add: step_def)
next
  case (Close r)
  with assms show ?thesis by (simp add: step_def registry_ok_transport_close)
next
  case Sweep
  with keepAliveSockets_total [OF assms] show ?thesis by (simp add: step_def)
next
  case (SubMessage c m)
  have "registry_ok (sub_message c m p)"
    by (rule registry_ok_cong [OF assms]) (simp_all add: sub_message_def)
  with SubMessage show ?thesis by (simp add: step_def)
next
  case (SubPMessage c pat m)
  have "registry_ok (sub_pmessage c pat m p)"
    by (rule registry_ok_cong [OF assms]) (simp_all add: sub_pmessage_def Let_def)
  with SubPMessage show ?thesis by (simp add: step_def)
next
  case (OnConnection h)
  have "registry_ok (onConnection h p)"
    by (rule registry_ok_cong [OF assms]) (simp_all add: onConnection_def)
  with OnConnection show ?thesis by (simp add: step_def)
next
  case (ToAll e args)
  have "registry_ok (toAll enc e args p)"
    by (rule registry_ok_cong [OF assms]) (simp_all add: sockets_toAll)
  with ToAll show ?thesis by (simp add: step_def)
next
  case (To g e args)
  have "registry_ok (to enc g e args p)"
    by (rule registry_ok_cong [OF assms]) (simp_all add: sockets_to)
  with To show ?thesis by (simp add: step_def)
next
  case (Join u g)
  with assms show ?thesis by (simp add: step_def registry_ok_join split: option.splits)
qed


section \<open>Identities in the registry\<close>

lemma keepAlive_socket_ws_id:
  "keepAlive_socket u p = Inr p' \<Longrightarrow> ws_id (sockets p' r) = ws_id (sockets p r)"
  by (auto simp: keepAlive_socket_def Let_def ws_ping_def disconnect_def sockets_transport_close
      split: option.splits if_splits)

lemma keepAlive_ws_id:
  "keepAlive ks p = Inr p' \<Longrightarrow> ws_id (sockets p' r) = ws_id (sockets p r)"
proof (induction ks arbitrary: p)
  case Nil
  then show ?case by simp
next
  case (Cons u ks)
  then obtain q where q: "keepAlive_socket u p = Inr q" and r: "keepAlive ks q = Inr p'"
    by (auto split: sum.splits)
  from Cons.IH [OF r] keepAlive_socket_ws_id [OF q] show ?case by simp
qed

lemma step_ws_id:
  assumes "step enc ev p = Inr p'" "\<forall>u. ev \<noteq> Open u"
  shows "allocated p' = allocated p \<and> ws_id (sockets p' r) = ws_id (sockets p r)"
  using assms
  by (cases ev)
    (auto simp: step_def on_pong_def on_message_def on_drain_def sockets_transport_close
      sub_message_def sub_pmessage_def onConnection_def sockets_toAll sockets_to join_def
      ws_subscribe_def keepAliveSockets_def Let_def
      dest: keepAlive_ws_id keepAlive_fields split: option.splits if_splits)








section \<open>The heartbeat sweep\<close>

lemma keepAlive_socket_step:
  assumes ok: "registry_ok p" and q: "keepAlive_socket u p = Inr q"
  shows "\<exists>s. map_of (connections p) u = Some s
    \<and> connections q =
          (if alive (sockets p (sock_ws s)) then connections p
           else AList.delete u (connections p))
    \<and> sockets q =
          (sockets p)(sock_ws s :=
             (if alive (sockets p (sock_ws s))
              then (sockets p (sock_ws s))\<lparr>alive := False, pings := Suc (pings (sockets p (sock_ws s)))\<rparr>
              else (sockets p (sock_ws s))\<lparr>closed := True, topics := []\<rparr>))
    \<and> registry_ok q"
proof -
  from q obtain s where s: "map_of (connections p) u = Some s"
    by (auto simp: keepAlive_socket_def split: option.splits)
  from keepAlive_socket_registered [OF ok s] q registry_ok_keepAlive_socket [OF ok q] s
  show ?thesis by auto
qed

lemma keepAlive_other_key:
  "keepAlive ks p = Inr p' \<Longrightarrow> registry_ok p \<Longrightarrow> k \<notin> set ks \<Longrightarrow>
     map_of (connections p') k = map_of (connections p) k"
proof (induction ks arbitrary: p)
  case Nil
  then show ?case by simp
next
  case (Cons u ks)
  from Cons.prems(1) obtain q where q: "keepAlive_socket u p = Inr q"
    and r: "keepAlive ks q = Inr p'"
    by (auto split: sum.splits)
  from Cons.prems(3) have ne: "k \<noteq> u" and nin: "k \<notin> set ks" by auto
  from keepAlive_socket_step [OF Cons.prems(2) q] obtain s where st: "map_of (connections p) u = Some s
    \<and> connections q =
          (if alive (sockets p (sock_ws s)) then connections p
           else AList.delete u (connections p))
    \<and> sockets q =
          (sockets p)(sock_ws s :=
             (if alive (sockets p (sock_ws s))
              then (sockets p (sock_ws s))\<lparr>alive := False, pings := Suc (pings (sockets p (sock_ws s)))\<rparr>
              else (sockets p (sock_ws s))\<lparr>closed := True, topics := []\<rparr>))
    \<and> registry_ok q" ..
  then have c: "connections q = (if alive (sockets p (sock_ws s)) then connections p
           else AList.delete u (connections p))" and okq: "registry_ok q"
    by simp_all
  from c ne have "map_of (connections q) k = map_of (connections p) k"
    by (simp add: delete_conv')
  with Cons.IH [OF r okq nin] show ?case by simp
qed

lemma keepAlive_other_socket:
  "keepAlive ks p = Inr p' \<Longrightarrow> registry_ok p \<Longrightarrow>
   \<forall>k' \<in> set ks. \<forall>s'. map_of (connections p) k' = Some s' \<longrightarrow> sock_ws s' \<noteq> r \<Longrightarrow>
     sockets p' r = sockets p r"
proof (induction ks arbitrary: p)
  case Nil
  then show ?case by simp
next
  case (Cons u ks)
  from Cons.prems(1) obtain q where q: "keepAlive_socket u p = Inr q"
    and rest: "keepAlive ks q = Inr p'"
    by (auto split: sum.splits)
  from keepAlive_socket_step [OF Cons.prems(2) q] obtain s where st: "map_of (connections p) u = Some s
    \<and> connections q =
          (if alive (sockets p (sock_ws s)) then connections p
           else AList.delete u (connections p))
    \<and> sockets q =
          (sockets p)(sock_ws s :=
             (if alive (sockets p (sock_ws s))
              then (sockets p (sock_ws s))\<lparr>alive := False, pings := Suc (pings (sockets p (sock_ws s)))\<rparr>
              else (sockets p (sock_ws s))\<lparr>closed := True, topics := []\<rparr>))
    \<and> registry_ok q" ..
  then have s: "map_of (connections p) u = Some s" and
    c: "connections q = (if alive (sockets p (sock_ws s)) then connections p
           else AList.delete u (connections p))" and
    w: "sockets q =
          (sockets p)(sock_ws s :=
             (if alive (sockets p (sock_ws s))
              then (sockets p (sock_ws s))\<lparr>alive := False, pings := Suc (pings (sockets p (sock_ws s)))\<rparr>
              else (sockets p (sock_ws s))\<lparr>closed := True, topics := []\<rparr>))"
    and okq: "registry_ok q"
    by simp_all
  from Cons.prems(3) s have "sock_ws s \<noteq> r" by auto
  with w have same: "sockets q r = sockets p r" by simp
  have "\<forall>k' \<in> set ks. \<forall>s'. map_of (connections q) k' = Some s' \<longrightarrow> sock_ws s' \<noteq> r"
    using Cons.prems(3) c by (auto simp: delete_conv' split: if_splits)
  from Cons.IH [OF rest okq this] same show ?case by simp
qed

text \<open>What a whole sweep does to one registered connection.\<close>

lemma keepAlive_target:
  "registry_ok p \<Longrightarrow> distinct ks \<Longrightarrow> set ks \<subseteq> fst ` set (connections p) \<Longrightarrow> k \<in> set ks \<Longrightarrow>
   map_of (connections p) k = Some s \<Longrightarrow>
     \<exists>p'. keepAlive ks p = Inr p' \<and> registry_ok p'
       \<and> (if alive (sockets p (sock_ws s))
           then map_of (connections p') k = Some s
                \<and> sockets p' (sock_ws s) =
                    (sockets p (sock_ws s))\<lparr>alive := False, pings := Suc (pings (sockets p (sock_ws s)))\<rparr>
           else map_of (connections p') k = None
                \<and> sockets p' (sock_ws s) = (sockets p (sock_ws s))\<lparr>closed := True, topics := []\<rparr>)"
proof (induction ks arbitrary: p)
  case Nil
  then show ?case by simp
next
  case (Cons u ks)
  from Cons.prems(2) have d: "distinct ks" and un: "u \<notin> set ks" by simp_all
  from keepAlive_total [OF Cons.prems(1,2,3)]
  obtain p' where p': "keepAlive (u # ks) p = Inr p'" and ok': "registry_ok p'" by blast
  then obtain q where q: "keepAlive_socket u p = Inr q" and rest: "keepAlive ks q = Inr p'"
    by (auto split: sum.splits)
  from keepAlive_socket_step [OF Cons.prems(1) q] obtain su where st: "map_of (connections p) u = Some su
    \<and> connections q =
          (if alive (sockets p (sock_ws su)) then connections p
           else AList.delete u (connections p))
    \<and> sockets q =
          (sockets p)(sock_ws su :=
             (if alive (sockets p (sock_ws su))
              then (sockets p (sock_ws su))\<lparr>alive := False, pings := Suc (pings (sockets p (sock_ws su)))\<rparr>
              else (sockets p (sock_ws su))\<lparr>closed := True, topics := []\<rparr>))
    \<and> registry_ok q" ..
  then have su: "map_of (connections p) u = Some su" and
    c: "connections q = (if alive (sockets p (sock_ws su)) then connections p
           else AList.delete u (connections p))" and
    w: "sockets q =
          (sockets p)(sock_ws su :=
             (if alive (sockets p (sock_ws su))
              then (sockets p (sock_ws su))\<lparr>alive := False, pings := Suc (pings (sockets p (sock_ws su)))\<rparr>
              else (sockets p (sock_ws su))\<lparr>closed := True, topics := []\<rparr>))"
    and okq: "registry_ok q"
    by simp_all
  have sub: "set ks \<subseteq> fst ` set (connections q)"
  proof
    fix x assume x: "x \<in> set ks"
    with un have "x \<noteq> u" by blast
    moreover from x Cons.prems(3) have "x \<in> fst ` set (connections p)" by auto
    ultimately show "x \<in> fst ` set (connections q)" by (auto simp: c AList.delete_eq)
  qed
  show ?case
  proof (cases "u = k")
    case True
    with su Cons.prems(5) have [simp]: "su = s" by simp
    from True un have kn: "k \<notin> set ks" by simp
    from keepAlive_other_key [OF rest okq kn]
    have ck: "map_of (connections p') k = map_of (connections q) k" .
    have "\<forall>k' \<in> set ks. \<forall>s'. map_of (connections q) k' = Some s' \<longrightarrow> sock_ws s' \<noteq> sock_ws s"
    proof (intro ballI allI impI)
      fix k' s' assume k': "k' \<in> set ks" and s': "map_of (connections q) k' = Some s'"
      from k' kn have "k' \<noteq> k" by blast
      moreover from registry_okD(3) [OF okq s']
      have "ws_id (sockets q (sock_ws s')) = Some k'" .
      moreover from keepAlive_socket_ws_id [OF q] registry_okD(3) [OF Cons.prems(1,5)]
      have "ws_id (sockets q (sock_ws s)) = Some k" by simp
      ultimately show "sock_ws s' \<noteq> sock_ws s" by auto
    qed
    from keepAlive_other_socket [OF rest okq this]
    have wk: "sockets p' (sock_ws s) = sockets q (sock_ws s)" .
    from p' ok' ck wk c w True Cons.prems(5) show ?thesis
      by (auto simp: delete_conv')
  next
    case False
    with Cons.prems(4) have kin: "k \<in> set ks" by simp
    from False c Cons.prems(5) have ks: "map_of (connections q) k = Some s"
      by (simp add: delete_conv')
    from registry_okD(3) [OF Cons.prems(1) su] registry_okD(3) [OF Cons.prems(1,5)] False
    have "sock_ws su \<noteq> sock_ws s" by auto
    with w have same: "sockets q (sock_ws s) = sockets p (sock_ws s)" by simp
    from Cons.IH [OF okq d sub kin ks] rest same q show ?thesis by simp
  qed
qed

lemma sweep_registered:
  assumes "registry_ok p" "map_of (connections p) k = Some s"
  shows "\<exists>p'. keepAliveSockets p = Inr p' \<and> registry_ok p'
       \<and> (if alive (sockets p (sock_ws s))
           then map_of (connections p') k = Some s
                \<and> sockets p' (sock_ws s) =
                    (sockets p (sock_ws s))\<lparr>alive := False, pings := Suc (pings (sockets p (sock_ws s)))\<rparr>
           else map_of (connections p') k = None
                \<and> sockets p' (sock_ws s) = (sockets p (sock_ws s))\<lparr>closed := True, topics := []\<rparr>)"
proof -
  from assms(1) have d: "distinct (map fst (connections p))" by (simp add: registry_ok_def)
  from assms(2) have "k \<in> set (map fst (connections p))"
    by (metis map_of_eq_None_iff option.distinct(1) set_map)
  with keepAlive_target [OF assms(1) d _ _ assms(2)] show ?thesis
    by (simp add: keepAliveSockets_def)
qed

lemma sweep_unregistered:
  assumes ok: "registry_ok p" and n: "map_of (connections p) k = None" and c: "closed (sockets p r)"
  shows "\<exists>p'. keepAliveSockets p = Inr p' \<and> registry_ok p'
       \<and> map_of (connections p') k = None \<and> sockets p' r = sockets p r"
proof -
  from keepAliveSockets_total [OF ok] obtain p' where
    p': "keepAlive (map fst (connections p)) p = Inr p'" and ok': "registry_ok p'"
    by (auto simp: keepAliveSockets_def)
  from n have "k \<notin> set (map fst (connections p))" by (simp add: map_of_eq_None_iff)
  from keepAlive_other_key [OF p' ok this] n have 1: "map_of (connections p') k = None" by simp
  have "\<forall>k' \<in> set (map fst (connections p)). \<forall>s'.
      map_of (connections p) k' = Some s' \<longrightarrow> sock_ws s' \<noteq> r"
    using registry_okD(4) [OF ok] c by auto
  from keepAlive_other_socket [OF p' ok this] have 2: "sockets p' r = sockets p r" .
  from p' ok' 1 2 show ?thesis by (simp add: keepAliveSockets_def)
qed

lemma step_frame:
  assumes "\<forall>u. ev \<noteq> Open u" "\<forall>r. ev \<noteq> Close r" "ev \<noteq> Sweep" "\<forall>r. ev \<noteq> Pong r"
  shows "\<exists>p'. step enc ev p = Inr p' \<and> connections p' = connections p
      \<and> allocated p' = allocated p
      \<and> (\<forall>r. ws_id (sockets p' r) = ws_id (sockets p r)
             \<and> alive (sockets p' r) = alive (sockets p r)
             \<and> closed (sockets p' r) = closed (sockets p r))"
  using assms
  by (cases ev)
    (auto simp: step_def on_message_def on_drain_def sub_message_def sub_pmessage_def
      onConnection_def sockets_toAll sockets_to join_def ws_subscribe_def Let_def
      split: option.splits)

lemma sweep_ids:
  assumes "keepAliveSockets p = Inr p'"
  shows "allocated p' = allocated p" "ws_id (sockets p' r) = ws_id (sockets p r)"
  using assms keepAlive_fields keepAlive_ws_id unfolding keepAliveSockets_def by blast+

lemma sole_owner_cong:
  assumes "sole_owner p k r" "allocated q = allocated p"
    "\<And>r'. ws_id (sockets q r') = ws_id (sockets p r')"
  shows "sole_owner q k r"
  using assms unfolding sole_owner_def by simp

lemma sole_owner_on_open:
  assumes "sole_owner p k r" "u \<noteq> k"
  shows "sole_owner (on_open u p) k r"
  using assms unfolding sole_owner_def
  by (auto simp: sockets_on_open key_of_def split: if_splits)

lemma sole_owner_step:
  assumes so: "sole_owner p k r" and st: "step enc ev p = Inr p'" and ne: "ev \<noteq> Open k"
  shows "sole_owner p' k r"
proof (cases "\<exists>u. ev = Open u")
  case True
  then obtain u where ev: "ev = Open u" by blast
  with ne have "u \<noteq> k" by blast
  with so ev st show ?thesis by (auto simp: step_def sole_owner_on_open)
next
  case False
  then have "\<forall>u. ev \<noteq> Open u" by blast
  from step_ws_id [OF st this] so show ?thesis
    by (intro sole_owner_cong [OF so]) simp_all
qed

text \<open>An unanswered probe stays unanswered until the connection's pong arrives.\<close>

lemma unanswered_step:
  assumes ok: "registry_ok p" and so: "sole_owner p k (sock_ws s)" and un: "unanswered p k s"
    and np: "ev \<noteq> Pong (sock_ws s)" and no: "ev \<noteq> Open k"
  shows "\<exists>p'. step enc ev p = Inr p' \<and> registry_ok p' \<and> sole_owner p' k (sock_ws s)
      \<and> unanswered p' k s"
proof -
  let ?r = "sock_ws s"
  from step_total [OF ok] obtain p' where st: "step enc ev p = Inr p'" and ok': "registry_ok p'"
    by blast
  from sole_owner_step [OF so st no] have so': "sole_owner p' k ?r" .
  from so have r: "?r < allocated p" and idr: "ws_id (sockets p ?r) = Some k"
    and only: "\<And>r'. key_of (ws_id (sockets p r')) = k \<Longrightarrow> r' = ?r"
    unfolding sole_owner_def by blast+
  have "unanswered p' k s"
  proof (cases ev)
    case (Open u)
    with no have "u \<noteq> k" by blast
    with Open st un r show ?thesis
      by (auto simp: step_def unanswered_def connections_on_open sockets_on_open update_conv')
  next
    case (Pong r')
    with np have "r' \<noteq> ?r" by blast
    with Pong st un show ?thesis
      by (auto simp: step_def unanswered_def on_pong_def)
  next
    case (Close r')
    show ?thesis
    proof (cases "r' = ?r")
      case True
      with Close st idr show ?thesis
        by (auto simp: step_def unanswered_def connections_transport_close
            sockets_transport_close delete_conv' key_of_def)
    next
      case False
      with only have "key_of (ws_id (sockets p r')) \<noteq> k" by blast
      with False Close st un show ?thesis
        by (auto simp: step_def unanswered_def connections_transport_close
            sockets_transport_close delete_conv')
    qed
  next
    case Sweep
    with st have sw: "keepAliveSockets p = Inr p'" by (simp add: step_def)
    from un show ?thesis unfolding unanswered_def
    proof
      assume a: "map_of (connections p) k = Some s \<and> \<not> alive (sockets p ?r)"
      with sweep_registered [OF ok, of k s] sw
      show "(map_of (connections p') k = Some s \<and> \<not> alive (sockets p' ?r))
          \<or> (map_of (connections p') k = None \<and> closed (sockets p' ?r))"
        by auto
    next
      assume a: "map_of (connections p) k = None \<and> closed (sockets p ?r)"
      with sweep_unregistered [OF ok, of k ?r] sw
      show "(map_of (connections p') k = Some s \<and> \<not> alive (sockets p' ?r))
          \<or> (map_of (connections p') k = None \<and> closed (sockets p' ?r))"
        by auto
    qed
  next
    case (Message r' b)
    with step_frame [of ev enc p] st un show ?thesis by (auto simp: unanswered_def)
  next
    case (Drain r')
    with step_frame [of ev enc p] st un show ?thesis by (auto simp: unanswered_def)
  next
    case (SubMessage c m)
    with step_frame [of ev enc p] st un show ?thesis by (auto simp: unanswered_def)
  next
    case (SubPMessage c pa m)
    with step_frame [of ev enc p] st un show ?thesis by (auto simp: unanswered_def)
  next
    case (OnConnection h)
    with step_frame [of ev enc p] st un show ?thesis by (auto simp: unanswered_def)
  next
    case (ToAll e args)
    with step_frame [of ev enc p] st un show ?thesis by (auto simp: unanswered_def)
  next
    case (To g e args)
    with step_frame [of ev enc p] st un show ?thesis by (auto simp: unanswered_def)
  next
    case (Join u g)
    with step_frame [of ev enc p] st un show ?thesis by (auto simp: unanswered_def)
  qed
  with st ok' so' show ?thesis by blast
qed

lemma unanswered_run:
  "registry_ok p \<Longrightarrow> sole_owner p k (sock_ws s) \<Longrightarrow> unanswered p k s \<Longrightarrow>
   Pong (sock_ws s) \<notin> set evs \<Longrightarrow> Open k \<notin> set evs \<Longrightarrow>
     \<exists>p'. run enc evs p = Inr p' \<and> registry_ok p' \<and> sole_owner p' k (sock_ws s)
       \<and> unanswered p' k s"
proof (induction evs arbitrary: p)
  case Nil
  then show ?case by simp
next
  case (Cons ev evs)
  from Cons.prems have "ev \<noteq> Pong (sock_ws s)" "ev \<noteq> Open k" by auto
  from unanswered_step [OF Cons.prems(1,2,3) this]
  obtain q where q: "step enc ev p = Inr q" "registry_ok q" "sole_owner q k (sock_ws s)"
    "unanswered q k s" by blast
  from Cons.prems have "Pong (sock_ws s) \<notin> set evs" "Open k \<notin> set evs" by auto
  from Cons.IH [OF q(2,3,4) this] q(1) show ?case by simp
qed

lemma run_append:
  "run enc (xs @ ys) p = (case run enc xs p of Inl f \<Rightarrow> Inl f | Inr q \<Rightarrow> run enc ys q)"
  by (induction xs arbitrary: p) (auto split: sum.splits)

text \<open>A connection whose flag is true at every sweep stays registered.\<close>

lemma answered_step:
  assumes ok: "registry_ok p" and so: "sole_owner p k (sock_ws s)"
    and reg: "map_of (connections p) k = Some s"
    and ap: "answers_probes (sock_ws s) (alive (sockets p (sock_ws s))) (ev # evs)"
    and nc: "ev \<noteq> Close (sock_ws s)" and no: "ev \<noteq> Open k"
  shows "\<exists>p'. step enc ev p = Inr p' \<and> registry_ok p' \<and> sole_owner p' k (sock_ws s)
      \<and> map_of (connections p') k = Some s
      \<and> answers_probes (sock_ws s) (alive (sockets p' (sock_ws s))) evs"
proof -
  let ?r = "sock_ws s"
  from step_total [OF ok] obtain p' where st: "step enc ev p = Inr p'" and ok': "registry_ok p'"
    by blast
  from sole_owner_step [OF so st no] have so': "sole_owner p' k ?r" .
  from so have r: "?r < allocated p"
    and only: "\<And>r'. key_of (ws_id (sockets p r')) = k \<Longrightarrow> r' = ?r"
    unfolding sole_owner_def by blast+
  have "map_of (connections p') k = Some s
      \<and> answers_probes ?r (alive (sockets p' ?r)) evs"
  proof (cases ev)
    case (Open u)
    with no have "u \<noteq> k" by blast
    with Open st reg r ap show ?thesis
      by (auto simp: step_def connections_on_open sockets_on_open update_conv')
  next
    case (Pong r')
    with st reg ap show ?thesis
      by (auto simp: step_def on_pong_def)
  next
    case (Close r')
    with nc have ne: "r' \<noteq> ?r" by blast
    with only have "key_of (ws_id (sockets p r')) \<noteq> k" by blast
    with ne Close st reg ap show ?thesis
      by (auto simp: step_def connections_transport_close sockets_transport_close delete_conv')
  next
    case Sweep
    with st have sw: "keepAliveSockets p = Inr p'" by (simp add: step_def)
    from Sweep ap have "alive (sockets p ?r)" and "answers_probes ?r False evs" by simp_all
    with sweep_registered [OF ok reg] sw show ?thesis by auto
  next
    case (Message r' b)
    with step_frame [of ev enc p] st reg ap show ?thesis by auto
  next
    case (Drain r')
    with step_frame [of ev enc p] st reg ap show ?thesis by auto
  next
    case (SubMessage c m)
    with step_frame [of ev enc p] st reg ap show ?thesis by auto
  next
    case (SubPMessage c pa m)
    with step_frame [of ev enc p] st reg ap show ?thesis by auto
  next
    case (OnConnection h)
    with step_frame [of ev enc p] st reg ap show ?thesis by auto
  next
    case (ToAll e args)
    with step_frame [of ev enc p] st reg ap show ?thesis by auto
  next
    case (To g e args)
    with step_frame [of ev enc p] st reg ap show ?thesis by auto
  next
    case (Join u g)
    with step_frame [of ev enc p] st reg ap show ?thesis by auto
  qed
  with st ok' so' show ?thesis by blast
qed

lemma answered_run:
  "registry_ok p \<Longrightarrow> sole_owner p k (sock_ws s) \<Longrightarrow> map_of (connections p) k = Some s \<Longrightarrow>
   answers_probes (sock_ws s) (alive (sockets p (sock_ws s))) evs \<Longrightarrow>
   Close (sock_ws s) \<notin> set evs \<Longrightarrow> Open k \<notin> set evs \<Longrightarrow>
     \<exists>p'. run enc evs p = Inr p' \<and> registry_ok p' \<and> map_of (connections p') k = Some s"
proof (induction evs arbitrary: p)
  case Nil
  then show ?case by simp
next
  case (Cons ev evs)
  from Cons.prems have "ev \<noteq> Close (sock_ws s)" "ev \<noteq> Open k" by auto
  from answered_step [OF Cons.prems(1,2,3,4) this]
  obtain q where q: "step enc ev p = Inr q" "registry_ok q" "sole_owner q k (sock_ws s)"
    "map_of (connections q) k = Some s"
    "answers_probes (sock_ws s) (alive (sockets q (sock_ws s))) evs" by blast
  from Cons.prems have "Close (sock_ws s) \<notin> set evs" "Open k \<notin> set evs" by auto
  from Cons.IH [OF q(2,3,4,5) this] q(1) show ?case by simp
qed

text \<open>
  Claim C5. Let a connection be registered under \<open>k\<close> with handle \<open>s\<close> in a state that satisfies
  the registry invariant, as every state reached from the constructor does (\<open>run_total\<close>). A
  sweep returns normally; if the connection's liveness flag is true
  the sweep clears the flag and sends one ping, and the connection stays registered and open;
  if the flag is false the sweep closes the connection and removes it from the registry.
  Hence, when no other connection object carries the identity \<open>k\<close>: if no pong of the
  connection arrives from one sweep to a later one (whatever else happens in between, short of
  \<^verbatim>\<open>generateUUID\<close> returning \<open>k\<close> again), the connection is closed and unregistered after the
  second sweep; and over any sequence of events in which the connection's flag is true at
  every sweep, and which neither closes the connection from outside nor reuses \<open>k\<close>, the
  connection is still registered and open at the end.
\<close>

theorem heartbeat_sweep:
  "registry_ok p \<and> map_of (connections p) k = Some s \<longrightarrow>
     (\<exists>p'. step enc Sweep p = Inr p'
        \<and> (if alive (sockets p (sock_ws s))
            then map_of (connections p') k = Some s \<and> \<not> closed (sockets p' (sock_ws s))
                 \<and> \<not> alive (sockets p' (sock_ws s))
                 \<and> pings (sockets p' (sock_ws s)) = Suc (pings (sockets p (sock_ws s)))
            else map_of (connections p') k = None \<and> closed (sockets p' (sock_ws s))))
     \<and> (sole_owner p k (sock_ws s) \<and> Pong (sock_ws s) \<notin> set evs \<and> Open k \<notin> set evs \<longrightarrow>
          (\<exists>p'. run enc (Sweep # evs @ [Sweep]) p = Inr p'
             \<and> map_of (connections p') k = None \<and> closed (sockets p' (sock_ws s))))
     \<and> (sole_owner p k (sock_ws s)
          \<and> answers_probes (sock_ws s) (alive (sockets p (sock_ws s))) evs'
          \<and> Close (sock_ws s) \<notin> set evs' \<and> Open k \<notin> set evs' \<longrightarrow>
          (\<exists>p'. run enc evs' p = Inr p'
             \<and> map_of (connections p') k = Some s \<and> \<not> closed (sockets p' (sock_ws s))))"
proof (intro impI conjI; elim conjE)
  let ?r = "sock_ws s"
  assume ok: "registry_ok p" and reg: "map_of (connections p) k = Some s"
  from registry_okD(4) [OF ok reg] have open_r: "\<not> closed (sockets p ?r)" .
  from sweep_registered [OF ok reg] open_r
  show "\<exists>p'. step enc Sweep p = Inr p'
        \<and> (if alive (sockets p ?r)
            then map_of (connections p') k = Some s \<and> \<not> closed (sockets p' ?r)
                 \<and> \<not> alive (sockets p' ?r)
                 \<and> pings (sockets p' ?r) = Suc (pings (sockets p ?r))
            else map_of (connections p') k = None \<and> closed (sockets p' ?r))"
    by (auto simp: step_def)
next
  let ?r = "sock_ws s"
  assume ok: "registry_ok p" and reg: "map_of (connections p) k = Some s"
    and so: "sole_owner p k ?r" and np: "Pong ?r \<notin> set evs" and no: "Open k \<notin> set evs"
  from sweep_registered [OF ok reg]
  obtain p1 where p1: "step enc Sweep p = Inr p1" and ok1: "registry_ok p1"
    and un1: "unanswered p1 k s"
    by (auto simp: step_def unanswered_def split: if_splits)
  have so1: "sole_owner p1 k ?r" using so p1 by (rule sole_owner_step) simp
  from unanswered_run [OF ok1 so1 un1 np no]
  obtain p2 where p2: "run enc evs p1 = Inr p2" and ok2: "registry_ok p2"
    and so2: "sole_owner p2 k ?r" and un2: "unanswered p2 k s"
    by blast
  have "\<exists>p3. step enc Sweep p2 = Inr p3
      \<and> map_of (connections p3) k = None \<and> closed (sockets p3 ?r)"
    using un2 unfolding unanswered_def
  proof
    assume "map_of (connections p2) k = Some s \<and> \<not> alive (sockets p2 ?r)"
    with sweep_registered [OF ok2, of k s] show ?thesis by (auto simp: step_def)
  next
    assume "map_of (connections p2) k = None \<and> closed (sockets p2 ?r)"
    with sweep_unregistered [OF ok2, of k ?r] show ?thesis by (auto simp: step_def)
  qed
  with p1 p2 show "\<exists>p'. run enc (Sweep # evs @ [Sweep]) p = Inr p'
      \<and> map_of (connections p') k = None \<and> closed (sockets p' ?r)"
    by (auto simp: run_append)
next
  let ?r = "sock_ws s"
  assume ok: "registry_ok p" and reg: "map_of (connections p) k = Some s"
    and so: "sole_owner p k ?r" and ap: "answers_probes ?r (alive (sockets p ?r)) evs'"
    and nc: "Close ?r \<notin> set evs'" and no: "Open k \<notin> set evs'"
  from answered_run [OF ok so reg ap nc no]
  obtain p' where p': "run enc evs' p = Inr p'" and ok': "registry_ok p'"
    and reg': "map_of (connections p') k = Some s"
    by blast
  from registry_okD(4) [OF ok' reg'] p' reg'
  show "\<exists>p'. run enc evs' p = Inr p'
      \<and> map_of (connections p') k = Some s \<and> \<not> closed (sockets p' ?r)"
    by blast
qed

theorem heartbeat_sweep_witness:
  "(\<exists>p'. step (\<lambda>pk. pk) Sweep (on_open ''c2'' (on_open ''c1'' (constructor None))) = Inr p'
      \<and> map_of (connections p') ''c1''
          = Some \<lparr>sock_id = ''c1'', sock_ws = 0, sock_debug = None\<rparr>
      \<and> \<not> alive (sockets p' 0) \<and> pings (sockets p' 0) = 1)
   \<and> (\<exists>p'. run (\<lambda>pk. pk)
          (Sweep # [Message 0 \<lparr>pkt_type = EVENT, pkt_data = []\<rparr>, Pong 1, Open ''c3'']
             @ [Sweep])
          (on_open ''c2'' (on_open ''c1'' (constructor None))) = Inr p'
      \<and> map_of (connections p') ''c1'' = None \<and> closed (sockets p' 0))
   \<and> (\<exists>p'. run (\<lambda>pk. pk) [Pong 0, Sweep, Open ''c3'', Pong 0, Close 1, Sweep]
          (on_open ''c2'' (on_open ''c1'' (constructor None))) = Inr p'
      \<and> map_of (connections p') ''c1''
          = Some \<lparr>sock_id = ''c1'', sock_ws = 0, sock_debug = None\<rparr>
      \<and> \<not> closed (sockets p' 0))"
proof -
  let ?c = "constructor None :: TeckosPacket UWSProvider"
  let ?p = "on_open ''c2'' (on_open ''c1'' ?c)"
  let ?s = "\<lparr>sock_id = ''c1'', sock_ws = 0, sock_debug = None\<rparr>"
  let ?evs = "[Message 0 \<lparr>pkt_type = EVENT, pkt_data = []\<rparr>, Pong 1, Open ''c3'']"
  let ?evs' = "[Pong 0, Sweep, Open ''c3'', Pong 0, Close 1, Sweep]"
  have c: "allocated ?c = 0" "debug (options ?c) = None" "connections ?c = []"
    "\<And>r. sockets ?c r = new_WebSocket"
    by (simp_all add: constructor_def merge_options_def or_string_def truthy_string_def Let_def)
  have ok: "registry_ok ?p"
    by (intro registry_ok_on_open registry_ok_constructor)
  have reg: "map_of (connections ?p) ''c1'' = Some ?s"
    by (simp add: connections_on_open update_conv' c)
  have w: "alive (sockets ?p 0)" "pings (sockets ?p 0) = 0"
    by (simp_all add: sockets_on_open c)
  have so: "sole_owner ?p ''c1'' (sock_ws ?s)"
    by (auto simp: sole_owner_def sockets_on_open c new_WebSocket_def key_of_def
        split: if_splits)
  have q: "Pong (sock_ws ?s) \<notin> set ?evs" "Open ''c1'' \<notin> set ?evs"
    "Close (sock_ws ?s) \<notin> set ?evs'" "Open ''c1'' \<notin> set ?evs'"
    "answers_probes (sock_ws ?s) (alive (sockets ?p (sock_ws ?s))) ?evs'"
    by (simp_all add: w)
  from heartbeat_sweep [of ?p "''c1''" ?s "\<lambda>pk. pk" ?evs ?evs'] ok reg so q w
  show ?thesis
    by (simp del: run.simps append.simps add: One_nat_def [symmetric] del: One_nat_def) blast
qed

section \<open>The debug flag\<close>

lemma without_debug_fields [simp]:
  "pub (without_debug p) = pub p" "sub (without_debug p) = sub p"
  "handlers (without_debug p) = handlers p" "sockets (without_debug p) = sockets p"
  "allocated (without_debug p) = allocated p"
  "debug (options (without_debug p)) = None"
  "trace (without_debug p) = filter (\<lambda>e. \<not> is_ConsoleLog e) (trace p)"
  "connections (without_debug p) = map (\<lambda>(k, s). (k, s\<lparr>sock_debug := None\<rparr>)) (connections p)"
  "options (without_debug p) = (options p)\<lparr>debug := None\<rparr>"
  by (simp_all add: without_debug_def)

lemma map_of_map_value:
  "map_of (map (\<lambda>(k, v). (k, f v)) al) k = map_option f (map_of al k)"
  by (induction al) auto

lemma map_value_update:
  "map (\<lambda>(k, v). (k, f v)) (AList.update k v al) = AList.update k (f v) (map (\<lambda>(k, v). (k, f v)) al)"
  by (induction al) auto

lemma map_value_delete:
  "map (\<lambda>(k, v). (k, f v)) (AList.delete k al) = AList.delete k (map (\<lambda>(k, v). (k, f v)) al)"
  by (induction al) auto

lemma fst_comp_map_value: "fst \<circ> (\<lambda>(k, v). (k, f v)) = fst"
  by (auto simp: fun_eq_iff)

lemma without_debug_emit:
  "without_debug (emit e p) = (if is_ConsoleLog e then without_debug p else emit e (without_debug p))"
  by (simp add: without_debug_def emit_def)

lemma without_debug_log_if_debug [simp]: "without_debug (log_if_debug m p) = without_debug p"
  by (simp add: log_if_debug_def without_debug_emit)

lemma log_if_debug_without_debug [simp]: "log_if_debug m (without_debug p) = without_debug p"
  by (simp add: log_if_debug_def truthy_bool_def)

lemma without_debug_update_ws [simp]:
  "without_debug (update_ws r f p) = update_ws r f (without_debug p)"
  by (simp add: without_debug_def update_ws_def)

lemma without_debug_ws_subscribe [simp]:
  "without_debug (ws_subscribe r t p) = ws_subscribe r t (without_debug p)"
  by (simp add: ws_subscribe_def)

lemma without_debug_ws_ping [simp]:
  "without_debug (ws_ping r x p) = ws_ping r x (without_debug p)"
  by (simp add: ws_ping_def without_debug_emit)

lemma without_debug_app_publish [simp]:
  "without_debug (app_publish t m p) = app_publish t m (without_debug p)"
  by (simp add: app_publish_def without_debug_emit without_debug_def emit_def)

lemma without_debug_connections_update:
  "without_debug (q\<lparr>connections := c\<rparr>)
     = (without_debug q)\<lparr>connections := map (\<lambda>(k, s). (k, s\<lparr>sock_debug := None\<rparr>)) c\<rparr>"
  by (simp add: without_debug_def)

lemma without_debug_on_close [simp]:
  "without_debug (on_close r p) = on_close r (without_debug p)"
proof (cases "map_of (connections p) (key_of (ws_id (sockets p r)))")
  case None
  then show ?thesis by (simp add: on_close_def map_of_map_value)
next
  case (Some s)
  then show ?thesis
    by (simp add: on_close_def map_of_map_value Let_def without_debug_connections_update
        without_debug_emit map_value_delete)
qed

lemma without_debug_transport_close [simp]:
  "without_debug (transport_close r p) = transport_close r (without_debug p)"
  by (simp add: transport_close_def)

lemma without_debug_disconnect [simp]:
  "without_debug (disconnect s p) = disconnect (s\<lparr>sock_debug := None\<rparr>) (without_debug p)"
  by (simp add: disconnect_def without_debug_emit)

lemma without_debug_keepAlive_socket:
  "map_sum id without_debug (keepAlive_socket u p) = keepAlive_socket u (without_debug p)"
  by (cases "map_of (connections p) u")
    (simp_all add: keepAlive_socket_def map_of_map_value Let_def)

lemma without_debug_keepAlive:
  "map_sum id without_debug (keepAlive ks p) = keepAlive ks (without_debug p)"
proof (induction ks arbitrary: p)
  case Nil
  then show ?case by simp
next
  case (Cons u ks)
  show ?case
  proof (cases "keepAlive_socket u p")
    case (Inl f)
    with without_debug_keepAlive_socket [of u p, symmetric]
    have "keepAlive_socket u (without_debug p) = Inl f" by simp
    with Inl show ?thesis by simp
  next
    case (Inr q)
    with without_debug_keepAlive_socket [of u p, symmetric]
    have "keepAlive_socket u (without_debug p) = Inr (without_debug q)" by simp
    with Inr Cons.IH [of q] show ?thesis by simp
  qed
qed

lemma forEach_handlers_blind:
  "\<forall>h \<in> set hs. debug_blind h \<Longrightarrow>
     forEach_handlers hs i (s\<lparr>sock_debug := d\<rparr>) = forEach_handlers hs i s"
proof (induction hs arbitrary: i)
  case Nil
  then show ?case by simp
next
  case (Cons h hs)
  then have h: "h (s\<lparr>sock_debug := d\<rparr>) = h s" by (simp add: debug_blind_def)
  from Cons.prems have "\<forall>h \<in> set hs. debug_blind h" by simp
  note ih = Cons.IH [OF this, of "Suc i"]
  from h ih show ?case by (simp split: option.splits prod.splits)
qed

lemma forEach_handlers_no_log:
  "forEach_handlers hs i s = (calls, r) \<Longrightarrow> filter (\<lambda>e. \<not> is_ConsoleLog e) calls = calls"
  by (induction hs arbitrary: i calls r) (auto split: option.splits prod.splits)

lemma without_debug_on_open:
  fixes p :: "'b UWSProvider"
  assumes "\<forall>h \<in> set (handlers p). debug_blind h"
  shows "without_debug (on_open u p) = on_open u (without_debug p)"
proof -
  let ?s = "\<lparr>sock_id = u, sock_ws = allocated p, sock_debug = debug (options p)\<rparr>"
  let ?f = "forEach_handlers (handlers p) 0 ?s :: 'b effect list \<times> string option"
  have f: "?f = (fst ?f, snd ?f)" by simp
  from forEach_handlers_blind [OF assms, where i = 0 and s = ?s and d = None]
  have f': "forEach_handlers (handlers p) 0 \<lparr>sock_id = u, sock_ws = allocated p, sock_debug = None\<rparr>
      = (fst ?f, snd ?f)"
    by simp
  from forEach_handlers_no_log [OF f]
  have nl: "filter (\<lambda>e. \<not> is_ConsoleLog e) (fst ?f) = fst ?f" .
  show ?thesis
    by (cases "snd ?f")
      (simp_all add: on_open_def Let_def f' nl without_debug_def map_value_update emit_def
        ws_subscribe_def update_ws_def split_beta)
qed

lemma join_sock_debug: "join (s\<lparr>sock_debug := d\<rparr>) g p = join s g p"
  by (simp add: join_def)

lemma without_debug_step:
  assumes "\<forall>h \<in> set (handlers p). debug_blind h"
  shows "map_sum id without_debug (step enc ev p) = step enc ev (without_debug p)"
proof (cases ev)
  case (Open u)
  with assms show ?thesis by (simp add: step_def without_debug_on_open)
next
  case (Pong r)
  then show ?thesis by (simp add: step_def on_pong_def)
next
  case (Message r b)
  then show ?thesis
    by (cases "map_of (connections p) (key_of (ws_id (sockets p r)))")
      (simp_all add: step_def on_message_def map_of_map_value without_debug_emit)
next
  case (Drain r)
  then show ?thesis by (simp add: step_def on_drain_def)
next
  case (Close r)
  then show ?thesis by (simp add: step_def)
next
  case Sweep
  then show ?thesis
    by (simp add: step_def keepAliveSockets_def without_debug_keepAlive fst_comp_map_value)
next
  case (SubMessage c m)
  then show ?thesis by (simp add: step_def sub_message_def)
next
  case (SubPMessage c pa m)
  then show ?thesis by (simp add: step_def sub_pmessage_def Let_def)
next
  case (OnConnection h)
  then show ?thesis by (simp add: step_def onConnection_def without_debug_def)
next
  case (ToAll e args)
  then show ?thesis by (simp add: step_def toAll_def Let_def without_debug_emit)
next
  case (To g e args)
  then show ?thesis by (simp add: step_def to_def Let_def without_debug_emit)
next
  case (Join u g)
  then show ?thesis
    by (cases "map_of (connections p) u")
      (simp_all add: step_def map_of_map_value join_sock_debug,
        simp add: join_def)
qed

lemma handlers_step:
  "step enc ev p = Inr p' \<Longrightarrow>
     set (handlers p') \<subseteq> set (handlers p) \<union> set (registered_handlers (ev # evs))"
  by (cases ev)
    (auto simp: step_def on_pong_def on_message_def on_drain_def sub_message_def
      sub_pmessage_def onConnection_def join_def keepAliveSockets_def Let_def
      dest: keepAlive_fields split: option.splits if_splits)

lemma registered_handlers_tail:
  "set (registered_handlers evs) \<subseteq> set (registered_handlers (ev # evs))"
  by (cases ev) auto

lemma without_debug_run:
  "\<forall>h \<in> set (handlers p) \<union> set (registered_handlers evs). debug_blind h \<Longrightarrow>
     map_sum id without_debug (run enc evs p) = run enc evs (without_debug p)"
proof (induction evs arbitrary: p)
  case Nil
  then show ?case by simp
next
  case (Cons ev evs)
  then have b: "\<forall>h \<in> set (handlers p). debug_blind h" by blast
  show ?case
  proof (cases "step enc ev p")
    case (Inl f)
    with without_debug_step [OF b, of enc ev, symmetric]
    have "step enc ev (without_debug p) = Inl f" by simp
    with Inl show ?thesis by simp
  next
    case (Inr q)
    with without_debug_step [OF b, of enc ev, symmetric]
    have s: "step enc ev (without_debug p) = Inr (without_debug q)" by simp
    from handlers_step [OF Inr, of evs] registered_handlers_tail [of evs ev] Cons.prems
    have "\<forall>h \<in> set (handlers q) \<union> set (registered_handlers evs). debug_blind h" by blast
    from Cons.IH [OF this] Inr s show ?thesis by simp
  qed
qed

lemma without_debug_constructor:
  "without_debug (constructor (Some (opts\<lparr>debug := d\<rparr>)))
     = without_debug (constructor (Some (opts\<lparr>debug := None\<rparr>)))"
  by (simp add: constructor_def Let_def merge_options_def without_debug_def emit_def
      log_if_debug_def)

lemma handlers_constructor: "handlers (constructor opts) = []"
  by (simp add: constructor_def Let_def)

text \<open>
  Claim C9. Take two providers constructed from options that differ only in the debug flag,
  and run the same sequence of callbacks, sweeps and method calls on both, the registered
  handlers not reading the handles' debug flag. Then both runs fault or both return, and what
  they return is the same state once the flag and the \<^verbatim>\<open>console.log\<close> lines are set aside: the
  same registry keys and handles over the same connection objects, the same connection objects
  (identities, liveness flags, subscriptions, received frames, pings, closed or open), the same
  handlers, and the same trace of errors logged, packets published locally and to Redis,
  handler calls, pings and closes, in the same order. \<^verbatim>\<open>listen\<close> settles the same way for both.
\<close>

theorem debug_flag_only_logs:
  "((\<forall>h \<in> set (registered_handlers evs). debug_blind h) \<longrightarrow>
      map_sum id without_debug (run enc evs (constructor (Some (opts\<lparr>debug := d\<rparr>))))
        = map_sum id without_debug (run enc evs (constructor (Some (opts\<lparr>debug := d'\<rparr>))))
      \<and> (\<forall>p p'. run enc evs (constructor (Some (opts\<lparr>debug := d\<rparr>))) = Inr p
            \<and> run enc evs (constructor (Some (opts\<lparr>debug := d'\<rparr>))) = Inr p' \<longrightarrow>
            map fst (connections p) = map fst (connections p')
            \<and> map (sock_ws \<circ> snd) (connections p) = map (sock_ws \<circ> snd) (connections p')
            \<and> sockets p = sockets p' \<and> allocated p = allocated p'
            \<and> filter (\<lambda>e. \<not> is_ConsoleLog e) (trace p)
                = filter (\<lambda>e. \<not> is_ConsoleLog e) (trace p')))
   \<and> (case listen (constructor (Some (opts\<lparr>debug := d\<rparr>)) :: 'b UWSProvider) port
              (socket :: unit option) of
         Resolved p \<Rightarrow>
           listen (constructor (Some (opts\<lparr>debug := d'\<rparr>)) :: 'b UWSProvider) port socket
             = Resolved (constructor (Some (opts\<lparr>debug := d'\<rparr>)))
           \<and> without_debug p = without_debug (constructor (Some (opts\<lparr>debug := d'\<rparr>)))
       | Rejected e \<Rightarrow>
           listen (constructor (Some (opts\<lparr>debug := d'\<rparr>)) :: 'b UWSProvider) port socket
             = Rejected e)"
proof (intro conjI impI allI)
  assume b: "\<forall>h \<in> set (registered_handlers evs). debug_blind h"
  have "map_sum id without_debug (run enc evs (constructor (Some (opts\<lparr>debug := x\<rparr>))))
      = run enc evs (without_debug (constructor (Some (opts\<lparr>debug := None\<rparr>))))" for x
    using b without_debug_run [of "constructor (Some (opts\<lparr>debug := x\<rparr>))" evs enc]
    by (simp add: handlers_constructor without_debug_constructor [of x opts])
  then show eq: "map_sum id without_debug (run enc evs (constructor (Some (opts\<lparr>debug := d\<rparr>))))
       = map_sum id without_debug (run enc evs (constructor (Some (opts\<lparr>debug := d'\<rparr>))))"
    by simp
  fix p p'
  assume "run enc evs (constructor (Some (opts\<lparr>debug := d\<rparr>))) = Inr p
      \<and> run enc evs (constructor (Some (opts\<lparr>debug := d'\<rparr>))) = Inr p'"
  with eq have w: "without_debug p = without_debug p'" by simp
  from arg_cong [OF w, of sockets] show "sockets p = sockets p'" by simp
  from arg_cong [OF w, of allocated] show "allocated p = allocated p'" by simp
  from arg_cong [OF w, of trace]
  show "filter (\<lambda>e. \<not> is_ConsoleLog e) (trace p) = filter (\<lambda>e. \<not> is_ConsoleLog e) (trace p')"
    by simp
  from arg_cong [OF w, of connections]
  have c: "map (\<lambda>(k, s). (k, s\<lparr>sock_debug := None\<rparr>)) (connections p)
      = map (\<lambda>(k, s). (k, s\<lparr>sock_debug := None\<rparr>)) (connections p')"
    by simp
  from arg_cong [OF c, of "map fst"]
  show "map fst (connections p) = map fst (connections p')"
    by (simp add: fst_comp_map_value)
  have e: "sock_ws \<circ> snd \<circ> (\<lambda>(k, s). (k, s\<lparr>sock_debug := None\<rparr>)) = sock_ws \<circ> snd"
    by (auto simp: fun_eq_iff)
  from arg_cong [OF c, of "map (sock_ws \<circ> snd)"]
  have "map (sock_ws \<circ> snd \<circ> (\<lambda>(k, s). (k, s\<lparr>sock_debug := None\<rparr>))) (connections p)
      = map (sock_ws \<circ> snd \<circ> (\<lambda>(k, s). (k, s\<lparr>sock_debug := None\<rparr>))) (connections p')"
    by simp
  then show "map (sock_ws \<circ> snd) (connections p) = map (sock_ws \<circ> snd) (connections p')"
    unfolding e .
next
  show "case listen (constructor (Some (opts\<lparr>debug := d\<rparr>)) :: 'b UWSProvider) port
              (socket :: unit option) of
         Resolved p \<Rightarrow>
           listen (constructor (Some (opts\<lparr>debug := d'\<rparr>)) :: 'b UWSProvider) port socket
             = Resolved (constructor (Some (opts\<lparr>debug := d'\<rparr>)))
           \<and> without_debug p = without_debug (constructor (Some (opts\<lparr>debug := d'\<rparr>)))
       | Rejected e \<Rightarrow>
           listen (constructor (Some (opts\<lparr>debug := d'\<rparr>)) :: 'b UWSProvider) port socket
             = Rejected e"
    using without_debug_constructor [of d opts, where ?'a = 'b]
      without_debug_constructor [of d' opts, where ?'a = 'b]
    by (cases socket) (simp_all add: listen_def)
qed

theorem debug_flag_only_logs_witness:
  "map_sum id without_debug
     (run (\<lambda>pk. pk) [OnConnection (\<lambda>s. None), Open ''c1'', ToAll ''ping'' [Num 42], Sweep, Sweep]
        (constructor (Some \<lparr>redisUrl = None, pingInterval = None, pingTimeout = None,
                              debug = Some True\<rparr>)))
   = map_sum id without_debug
     (run (\<lambda>pk. pk) [OnConnection (\<lambda>s. None), Open ''c1'', ToAll ''ping'' [Num 42], Sweep, Sweep]
        (constructor (Some \<lparr>redisUrl = None, pingInterval = None, pingTimeout = None,
                              debug = None\<rparr>)))
   \<and> (\<exists>p. run (\<lambda>pk. pk)
          [OnConnection (\<lambda>s. None), Open ''c1'', ToAll ''ping'' [Num 42], Sweep, Sweep]
          (constructor (Some \<lparr>redisUrl = None, pingInterval = None, pingTimeout = None,
                                debug = Some True\<rparr>)) = Inr p
        \<and> ConsoleLog ''Publishing event ping to group a'' \<in> set (trace p))"
proof -
  let ?evs = "[OnConnection (\<lambda>s. None), Open ''c1'', ToAll ''ping'' [Num 42], Sweep, Sweep]
    :: TeckosPacket event list"
  let ?o = "\<lparr>redisUrl = None, pingInterval = None, pingTimeout = None, debug = None\<rparr>"
  have b: "\<forall>h \<in> set (registered_handlers ?evs). debug_blind h"
    by (simp add: debug_blind_def)
  from debug_flag_only_logs [where evs = ?evs and enc = "\<lambda>pk. pk" and opts = ?o
      and d = "Some True" and d' = None] b
  have 1: "map_sum id without_debug (run (\<lambda>pk. pk) ?evs (constructor (Some (?o\<lparr>debug := Some True\<rparr>))))
      = map_sum id without_debug (run (\<lambda>pk. pk) ?evs (constructor (Some (?o\<lparr>debug := None\<rparr>))))"
    by blast
  have 2: "\<exists>p. run (\<lambda>pk. pk) ?evs (constructor (Some (?o\<lparr>debug := Some True\<rparr>))) = Inr p
        \<and> ConsoleLog ''Publishing event ping to group a'' \<in> set (trace p)"
    by (simp add: model_defs)
  from 1 2 show ?thesis by simp
qed

end
